theory Spec2Isabelle
  imports Main
begin


section \<open>Python values and exceptions\<close>

text \<open>
  The parser of \<^verbatim>\<open>lettuce/parser.py\<close> is a pyparsing grammar whose parse actions build
  the syntax tree. Python is dynamically typed: a token is a string, a nested
  \<^verbatim>\<open>ParseResults\<close> or one of the node objects. One datatype holds them all. An attribute
  an object does not have yet (\<^verbatim>\<open>steps\<close> before \<^verbatim>\<open>add_statements\<close> ran) is \<open>None\<close> of an
  option; so is Python's own \<^verbatim>\<open>None\<close> in \<^verbatim>\<open>Statement.table\<close> and \<^verbatim>\<open>Statement.multiline\<close>.

  \<^item> \<open>ParseResults toklist tokdict\<close>: the token list and the named results, the latest
    binding of a name last.
  \<^item> \<open>Tag tag\<close>
  \<^item> \<open>Statement statement table multiline\<close>
  \<^item> \<open>Background statements steps\<close>
  \<^item> \<open>Scenario statements tags name steps examples\<close>
  \<^item> \<open>Feature statements tags name background scenarios\<close>
\<close>

datatype pyval =
    Str string
  | ParseResults "pyval list" "(string \<times> pyval) list"
  | Tag pyval
  | Statement string "pyval list list option" "pyval option"
  | Background "pyval list" "pyval list option"
  | Scenario "pyval list" pyval pyval "pyval list option" "pyval option"
  | Feature "pyval list" pyval pyval "pyval option" "pyval list option"

text \<open>
  \<open>ParseException loc\<close> is pyparsing's exception on the input string at \<open>loc\<close>.
  \<^verbatim>\<open>IndexError\<close> is what \<^verbatim>\<open>instring[loc]\<close> raises at the end of the string, and
  \<^verbatim>\<open>tokens[0]\<close> on no tokens. \<open>NonTermination\<close> is not an exception: it stands for a
  \<^verbatim>\<open>while 1\<close> loop of pyparsing that would run forever.
\<close>

datatype exn =
    ParseException nat
  | ValueError
  | TypeError
  | AttributeError
  | IndexError
  | AssertionError
  | NonTermination

type_synonym results = "pyval list \<times> (string \<times> pyval) list"

section \<open>The syntax tree classes\<close>

text \<open>\<^verbatim>\<open>ParseResults.__getattr__\<close>: the latest value of the name, or the empty string.\<close>

fun getattr :: "pyval \<Rightarrow> string \<Rightarrow> exn + pyval" where
  "getattr (ParseResults toklist tokdict) name =
     (case map_of (rev tokdict) name of Some v \<Rightarrow> Inr v | None \<Rightarrow> Inr (Str []))"
| "getattr _ name = Inl AttributeError"

text \<open>Iterating a value: the tokens of a \<^verbatim>\<open>ParseResults\<close>, the characters of a string.\<close>

fun iter :: "pyval \<Rightarrow> exn + pyval list" where
  "iter (ParseResults toklist tokdict) = Inr toklist"
| "iter (Str s) = Inr (map (\<lambda>c. Str [c]) s)"
| "iter _ = Inl TypeError"

fun iter_rows :: "pyval list \<Rightarrow> exn + pyval list list" where
  "iter_rows [] = Inr []"
| "iter_rows (r # rs) =
     (case iter r of Inl e \<Rightarrow> Inl e
      | Inr row \<Rightarrow> (case iter_rows rs of Inl e \<Rightarrow> Inl e | Inr rows \<Rightarrow> Inr (row # rows)))"

fun isinstance_Tag :: "pyval \<Rightarrow> bool" where
  "isinstance_Tag (Tag t) = True"
| "isinstance_Tag _ = False"

fun isinstance_Statement :: "pyval \<Rightarrow> bool" where
  "isinstance_Statement (Statement s t m) = True"
| "isinstance_Statement _ = False"

text \<open>\<^verbatim>\<open>Tag.__init__\<close>: \<^verbatim>\<open>self.tag = tokens[0]\<close>.\<close>

fun Tag_init :: "results \<Rightarrow> exn + pyval" where
  "Tag_init ([], d) = Inl IndexError"
| "Tag_init (t # ts, d) = Inr (Tag t)"

text \<open>
  \<^verbatim>\<open>Statement.__init__\<close>: three tokens, or two when unpacking three raises
  \<^verbatim>\<open>ValueError\<close>; any other number raises \<^verbatim>\<open>ValueError\<close> from the handler.
  \<^verbatim>\<open>keyword + remainder\<close> concatenates two strings. \<^verbatim>\<open>hasattr(data, 'table')\<close> holds of
  every \<^verbatim>\<open>ParseResults\<close> (its \<^verbatim>\<open>__getattr__\<close> never raises) and of no string, and the
  table is \<^verbatim>\<open>map(list, data)\<close>.
\<close>

definition str_add :: "pyval \<Rightarrow> pyval \<Rightarrow> exn + string" where
  "str_add a b =
     (case a of
        Str x \<Rightarrow> (case b of Str y \<Rightarrow> Inr (x @ y) | _ \<Rightarrow> Inl TypeError)
      | _ \<Rightarrow> Inl TypeError)"

definition Statement_new :: "pyval \<Rightarrow> pyval \<Rightarrow> pyval option \<Rightarrow> exn + pyval" where
  "Statement_new keyword remainder data =
     (case str_add keyword remainder of Inl e \<Rightarrow> Inl e
      | Inr statement \<Rightarrow>
          (case data of
             Some (ParseResults rows d) \<Rightarrow>
               (case iter_rows rows of Inl e \<Rightarrow> Inl e
                | Inr tbl \<Rightarrow> Inr (Statement statement (Some tbl) None))
           | _ \<Rightarrow> Inr (Statement statement None data)))"

definition Statement_init :: "results \<Rightarrow> exn + pyval" where
  "Statement_init tokens =
     (case fst tokens of
        [keyword, remainder, data] \<Rightarrow> Statement_new keyword remainder (Some data)
      | [keyword, remainder] \<Rightarrow> Statement_new keyword remainder None
      | _ \<Rightarrow> Inl ValueError)"

text \<open>
  \<^verbatim>\<open>Statement.keys\<close>: \<^verbatim>\<open>tuple(self.table[0])\<close>. Indexing \<^verbatim>\<open>None\<close> raises \<^verbatim>\<open>TypeError\<close>, an
  empty table \<^verbatim>\<open>IndexError\<close>.
\<close>

fun keys :: "pyval \<Rightarrow> exn + pyval list" where
  "keys (Statement s None m) = Inl TypeError"
| "keys (Statement s (Some []) m) = Inl IndexError"
| "keys (Statement s (Some (row # rows)) m) = Inr row"
| "keys _ = Inl AttributeError"

text \<open>
  \<^verbatim>\<open>Statement.hashes\<close>: \<^verbatim>\<open>[dict(zip(keys, row)) for row in self.table[1:]]\<close>. \<^verbatim>\<open>zip\<close> stops
  at the shorter list; in \<^verbatim>\<open>dict\<close> a later pair overrides an earlier one with the same
  key, hence the \<open>rev\<close>.
\<close>

definition dict :: "('k \<times> 'v) list \<Rightarrow> ('k \<rightharpoonup> 'v)" where
  "dict kvs = map_of (rev kvs)"

fun hashes :: "pyval \<Rightarrow> exn + (pyval \<rightharpoonup> pyval) list" where
  "hashes (Statement s tbl m) =
     (case keys (Statement s tbl m) of Inl e \<Rightarrow> Inl e
      | Inr ks \<Rightarrow> Inr (map (\<lambda>row. dict (zip ks row)) (tl (the tbl))))"
| "hashes _ = Inl AttributeError"

text \<open>\<^verbatim>\<open>Block.__init__\<close>: \<^verbatim>\<open>self.statements = []\<close>. \<^verbatim>\<open>Background\<close> adds nothing.\<close>

definition Background_init :: "results \<Rightarrow> exn + pyval" where
  "Background_init tokens = Inr (Background [] None)"

text \<open>
  \<^verbatim>\<open>TaggedBlock.__init__\<close>: \<^verbatim>\<open>token = tokens[0]\<close>, then \<^verbatim>\<open>self.tags = token.tags\<close>,
  \<^verbatim>\<open>self.name = token.name\<close>, and the assertion that every tag is a \<^verbatim>\<open>Tag\<close>.
\<close>

definition TaggedBlock_init ::
  "(pyval list \<Rightarrow> pyval \<Rightarrow> pyval \<Rightarrow> pyval) \<Rightarrow> results \<Rightarrow> exn + pyval" where
  "TaggedBlock_init klass tokens =
     (case fst tokens of [] \<Rightarrow> Inl IndexError
      | token # _ \<Rightarrow>
          (case getattr token ''tags'' of Inl e \<Rightarrow> Inl e
           | Inr tags \<Rightarrow>
               (case getattr token ''name'' of Inl e \<Rightarrow> Inl e
                | Inr name \<Rightarrow>
                    (case iter tags of Inl e \<Rightarrow> Inl e
                     | Inr ts \<Rightarrow>
                         if list_all isinstance_Tag ts then Inr (klass [] tags name)
                         else Inl AssertionError))))"

definition Scenario_init :: "results \<Rightarrow> exn + pyval" where
  "Scenario_init = TaggedBlock_init (\<lambda>statements tags name. Scenario statements tags name None None)"

definition Feature_init :: "results \<Rightarrow> exn + pyval" where
  "Feature_init = TaggedBlock_init (\<lambda>statements tags name. Feature statements tags name None None)"

text \<open>
  \<^verbatim>\<open>Block.add_statements\<close> sets \<^verbatim>\<open>steps\<close> on the node (the attribute \<^verbatim>\<open>statements\<close> of
  \<^verbatim>\<open>__init__\<close> stays the empty list) and asserts that every step is a \<^verbatim>\<open>Statement\<close>.
  Setting an attribute on a string or a \<^verbatim>\<open>ParseResults\<close> raises; a \<^verbatim>\<open>Statement\<close> or a
  \<^verbatim>\<open>Tag\<close> never stands under the name \<^verbatim>\<open>node\<close>.
\<close>

fun set_steps :: "pyval \<Rightarrow> pyval list \<Rightarrow> exn + pyval" where
  "set_steps (Background sts steps) xs = Inr (Background sts (Some xs))"
| "set_steps (Scenario sts tags name steps ex) xs = Inr (Scenario sts tags name (Some xs) ex)"
| "set_steps _ xs = Inl AttributeError"

definition Block_add_statements :: "results \<Rightarrow> exn + pyval" where
  "Block_add_statements tokens =
     (case fst tokens of [] \<Rightarrow> Inl IndexError
      | token # _ \<Rightarrow>
          (case getattr token ''node'' of Inl e \<Rightarrow> Inl e
           | Inr self \<Rightarrow>
               (case getattr token ''statements'' of Inl e \<Rightarrow> Inl e
                | Inr sts \<Rightarrow>
                    (case iter sts of Inl e \<Rightarrow> Inl e
                     | Inr steps \<Rightarrow>
                         (case set_steps self steps of Inl e \<Rightarrow> Inl e
                          | Inr self' \<Rightarrow>
                              if list_all isinstance_Statement steps then Inr self'
                              else Inl AssertionError)))))"

text \<open>\<^verbatim>\<open>Scenario.add_statements\<close>: the above, then \<^verbatim>\<open>self.examples = token.examples\<close>.\<close>

fun set_examples :: "pyval \<Rightarrow> pyval \<Rightarrow> exn + pyval" where
  "set_examples (Scenario sts tags name steps ex) v = Inr (Scenario sts tags name steps (Some v))"
| "set_examples _ v = Inl AttributeError"

definition Scenario_add_statements :: "results \<Rightarrow> exn + pyval" where
  "Scenario_add_statements tokens =
     (case fst tokens of [] \<Rightarrow> Inl IndexError
      | token # _ \<Rightarrow>
          (case Block_add_statements tokens of Inl e \<Rightarrow> Inl e
           | Inr self \<Rightarrow>
               (case getattr token ''examples'' of Inl e \<Rightarrow> Inl e
                | Inr ex \<Rightarrow> set_examples self ex)))"

text \<open>
  \<^verbatim>\<open>Feature.add_blocks\<close>: \<^verbatim>\<open>self.background = token.background\<close> and
  \<^verbatim>\<open>self.scenarios = list(token.scenarios)\<close>. The group named \<^verbatim>\<open>description\<close> is not read.
\<close>

fun set_blocks :: "pyval \<Rightarrow> pyval \<Rightarrow> pyval list \<Rightarrow> exn + pyval" where
  "set_blocks (Feature sts tags name bg scs) b xs = Inr (Feature sts tags name (Some b) (Some xs))"
| "set_blocks _ b xs = Inl AttributeError"

definition Feature_add_blocks :: "results \<Rightarrow> exn + pyval" where
  "Feature_add_blocks tokens =
     (case fst tokens of [] \<Rightarrow> Inl IndexError
      | token # _ \<Rightarrow>
          (case getattr token ''node'' of Inl e \<Rightarrow> Inl e
           | Inr self \<Rightarrow>
               (case getattr token ''background'' of Inl e \<Rightarrow> Inl e
                | Inr bg \<Rightarrow>
                    (case getattr token ''scenarios'' of Inl e \<Rightarrow> Inl e
                     | Inr scs \<Rightarrow>
                         (case iter scs of Inl e \<Rightarrow> Inl e
                          | Inr xs \<Rightarrow> set_blocks self bg xs)))))"

section \<open>The pyparsing elements\<close>

text \<open>
  pyparsing (2.0) is a library the repository imports; its elements are modelled here
  after the library. An element parses \<^verbatim>\<open>instring\<close> from \<^verbatim>\<open>loc\<close> and returns the new
  location and its tokens, or raises. \<^verbatim>\<open>ParserElement._parseNoCache\<close> skips the
  element's white space (\<^verbatim>\<open>preParse\<close>), runs the element's \<^verbatim>\<open>parseImpl\<close>, then its
  \<^verbatim>\<open>postParse\<close>, names the results and runs the parse action. \<^verbatim>\<open>callPreparse\<close> is off
  for the elements that leave the white space to the expressions they hold, and
  \<^verbatim>\<open>mayIndexError\<close> is off for the elements pyparsing does not guard against an
  \<^verbatim>\<open>IndexError\<close>.
\<close>

record element =
  skipWhitespace :: bool
  whiteChars :: string
  callPreparse :: bool
  mayIndexError :: bool
  parseImpl :: "string \<Rightarrow> nat \<Rightarrow> bool \<Rightarrow> exn + nat \<times> results"
  postParse :: "results \<Rightarrow> results"
  resultsName :: "string option"
  parseAction :: "(results \<Rightarrow> exn + pyval list) option"

definition DEFAULT_WHITE_CHARS :: string where
  "DEFAULT_WHITE_CHARS = [CHR '' '', CHR 0x0A, CHR 0x09, CHR 0x0D]"

text \<open>\<^verbatim>\<open>while loc < instrlen and instring[loc] in wt: loc += 1\<close>\<close>

function skip_white :: "string \<Rightarrow> string \<Rightarrow> nat \<Rightarrow> nat" where
  "skip_white wt instring loc =
     (if loc < length instring \<and> instring ! loc \<in> set wt
      then skip_white wt instring (loc + 1) else loc)"
  by pat_completeness auto
termination
  by (relation "measure (\<lambda>(wt, instring, loc). length instring - loc)") auto

declare skip_white.simps [simp del]

definition preParse :: "element \<Rightarrow> string \<Rightarrow> nat \<Rightarrow> nat" where
  "preParse e instring loc =
     (if skipWhitespace e then skip_white (whiteChars e) instring loc else loc)"

text \<open>
  \<^verbatim>\<open>ParseResults(tokens, name)\<close>: the name is bound to the first token (for a group, the
  group). Every named element of the grammar returns exactly one token.
\<close>

fun name_results :: "string option \<Rightarrow> results \<Rightarrow> results" where
  "name_results None r = r"
| "name_results (Some n) ([], d) = ([], d)"
| "name_results (Some n) (t # ts, d) = (t # ts, d @ [(n, t)])"

text \<open>
  \<^verbatim>\<open>parseImpl\<close> runs inside \<^verbatim>\<open>try ... except IndexError\<close>, which raises
  \<^verbatim>\<open>ParseException(instring, len(instring), ...)\<close>, when the element has \<^verbatim>\<open>mayIndexError\<close>
  or \<^verbatim>\<open>loc >= len(instring)\<close>, for the \<^verbatim>\<open>loc\<close> before \<^verbatim>\<open>preParse\<close>; otherwise an
  \<^verbatim>\<open>IndexError\<close> passes through.
\<close>

definition catch_IndexError ::
  "element \<Rightarrow> string \<Rightarrow> nat \<Rightarrow> exn + nat \<times> results \<Rightarrow> exn + nat \<times> results" where
  "catch_IndexError e instring loc res =
     (case res of
        Inl IndexError \<Rightarrow>
          if mayIndexError e \<or> length instring \<le> loc
          then Inl (ParseException (length instring)) else Inl IndexError
      | _ \<Rightarrow> res)"

text \<open>
  The parse action gets the named results; when what it returns is truthy (a
  non-empty list; every node object is one token), that replaces the tokens.
\<close>

definition parseNoCache ::
  "element \<Rightarrow> string \<Rightarrow> nat \<Rightarrow> bool \<Rightarrow> bool \<Rightarrow> exn + nat \<times> results" where
  "parseNoCache e instring loc doActions callPreParse =
     (let preloc = (if callPreParse \<and> callPreparse e then preParse e instring loc else loc) in
      case catch_IndexError e instring loc (parseImpl e instring preloc doActions) of
        Inl x \<Rightarrow> Inl x
      | Inr (loc', tokens) \<Rightarrow>
          (let retTokens = name_results (resultsName e) (postParse e tokens) in
           case parseAction e of
             None \<Rightarrow> Inr (loc', retTokens)
           | Some fn \<Rightarrow>
               if doActions then
                 (case fn retTokens of
                    Inl x \<Rightarrow> Inl x
                  | Inr [] \<Rightarrow> Inr (loc', retTokens)
                  | Inr (t # ts) \<Rightarrow> Inr (loc', name_results (resultsName e) (t # ts, [])))
               else Inr (loc', retTokens)))"

text \<open>\<^verbatim>\<open>expr.setParseAction(fn)\<close> and \<^verbatim>\<open>expr(name)\<close> (a copy with the results name set).\<close>

definition setParseAction :: "(results \<Rightarrow> exn + pyval list) \<Rightarrow> element \<Rightarrow> element" where
  "setParseAction fn e = e\<lparr>parseAction := Some fn\<rparr>"

definition named :: "element \<Rightarrow> string \<Rightarrow> element" where
  "named e n = e\<lparr>resultsName := Some n\<rparr>"

text \<open>A parse action that is a class: the new object is the one token.\<close>

definition construct :: "(results \<Rightarrow> exn + pyval) \<Rightarrow> results \<Rightarrow> exn + pyval list" where
  "construct init tokens = (case init tokens of Inl x \<Rightarrow> Inl x | Inr v \<Rightarrow> Inr [v])"

definition Token :: "(string \<Rightarrow> nat \<Rightarrow> bool \<Rightarrow> exn + nat \<times> results) \<Rightarrow> element" where
  "Token impl = \<lparr>skipWhitespace = True, whiteChars = DEFAULT_WHITE_CHARS, callPreparse = True,
     mayIndexError = True, parseImpl = impl,
     postParse = (\<lambda>r. r), resultsName = None, parseAction = None\<rparr>"

text \<open>\<^verbatim>\<open>instring.startswith(match, loc)\<close>\<close>

definition startswith :: "string \<Rightarrow> string \<Rightarrow> nat \<Rightarrow> bool" where
  "startswith instring match loc = (take (length match) (drop loc instring) = match)"

text \<open>
  \<^verbatim>\<open>Literal\<close>: \<^verbatim>\<open>instring[loc]\<close> raises \<^verbatim>\<open>IndexError\<close> at or beyond the end, and the
  element has \<^verbatim>\<open>mayIndexError = False\<close>.
\<close>

definition Literal :: "string \<Rightarrow> element" where
  "Literal match = (Token (\<lambda>instring loc doActions.
     if length instring \<le> loc then Inl IndexError
     else if startswith instring match loc then Inr (loc + length match, ([Str match], []))
     else Inl (ParseException loc)))\<lparr>mayIndexError := False\<rparr>"

definition alphanums :: string where
  "alphanums = ''abcdefghijklmnopqrstuvwxyzABCDEFGHIJKLMNOPQRSTUVWXYZ0123456789''"

definition identChars :: string where
  "identChars = alphanums @ ''_$''"

text \<open>
  \<^verbatim>\<open>Keyword\<close>: the literal, not followed and not preceded by an identifier character.
\<close>

definition Keyword :: "string \<Rightarrow> element" where
  "Keyword match = (Token (\<lambda>instring loc doActions.
     if length instring \<le> loc then Inl IndexError
     else if startswith instring match loc \<and>
        (length instring \<le> loc + length match \<or>
         instring ! (loc + length match) \<notin> set identChars) \<and>
        (loc = 0 \<or> instring ! (loc - 1) \<notin> set identChars)
     then Inr (loc + length match, ([Str match], []))
     else Inl (ParseException loc)))\<lparr>mayIndexError := False\<rparr>"

text \<open>
  \<^verbatim>\<open>string.printable\<close> without white space: the characters 33 to 126.
\<close>

definition printables :: string where
  "printables = map char_of [33 ..< (127::nat)]"

text \<open>
  A compiled regular expression matches from \<^verbatim>\<open>pos\<close> clamped to the length of the
  string. \<^verbatim>\<open>Word(chars)\<close> is the regular expression \<^verbatim>\<open>[chars]+\<close>.
\<close>

definition Word :: "string \<Rightarrow> element" where
  "Word initChars = (Token (\<lambda>instring loc doActions.
     let pos = min loc (length instring);
         m = takeWhile (\<lambda>c. c \<in> set initChars) (drop pos instring)
     in if m = [] then Inl (ParseException loc)
        else Inr (pos + length m, ([Str m], []))))\<lparr>mayIndexError := False\<rparr>"

text \<open>\<^verbatim>\<open>restOfLine = Regex(r".*").leaveWhitespace()\<close>: up to the next newline.\<close>

definition restOfLine :: element where
  "restOfLine = (Token (\<lambda>instring loc doActions.
     let pos = min loc (length instring);
         m = takeWhile (\<lambda>c. c \<noteq> CHR 0x0A) (drop pos instring)
     in Inr (pos + length m, ([Str m], []))))\<lparr>skipWhitespace := False, mayIndexError := False\<rparr>"

text \<open>
  \<^verbatim>\<open>White()\<close> matches one or more of space, tab, return and newline, and skips none
  before. \<^verbatim>\<open>CharsNotIn(notChars)\<close> matches one or more characters not in the set, and
  skips no white space. Both start with \<^verbatim>\<open>instring[loc]\<close>; \<^verbatim>\<open>White\<close> keeps \<^verbatim>\<open>mayIndexError\<close>.
\<close>

definition White :: element where
  "White = (Token (\<lambda>instring loc doActions.
     if length instring \<le> loc then Inl IndexError
     else let m = takeWhile (\<lambda>c. c \<in> set DEFAULT_WHITE_CHARS) (drop loc instring)
          in if m = [] then Inl (ParseException loc)
             else Inr (loc + length m, ([Str m], []))))\<lparr>whiteChars := []\<rparr>"

definition CharsNotIn :: "string \<Rightarrow> element" where
  "CharsNotIn notChars = (Token (\<lambda>instring loc doActions.
     if length instring \<le> loc then Inl IndexError
     else let m = takeWhile (\<lambda>c. c \<notin> set notChars) (drop loc instring)
          in if m = [] then Inl (ParseException loc)
             else Inr (loc + length m, ([Str m], []))))\<lparr>skipWhitespace := False, mayIndexError := False\<rparr>"

text \<open>
  \<^verbatim>\<open>LineEnd\<close> skips white space but newlines; at the end of the string it returns
  \<^verbatim>\<open>loc + 1\<close> and no token. \<^verbatim>\<open>StringEnd\<close> accepts the end and anything beyond.
\<close>

definition lineEnd :: element where
  "lineEnd = (Token (\<lambda>instring loc doActions.
     if loc < length instring then
       (if instring ! loc = CHR 0x0A then Inr (loc + 1, ([Str [CHR 0x0A]], []))
        else Inl (ParseException loc))
     else if loc = length instring then Inr (loc + 1, ([], []))
     else Inl (ParseException loc)))\<lparr>whiteChars := [CHR '' '', CHR 0x09, CHR 0x0D],
       mayIndexError := False\<rparr>"

definition stringEnd :: element where
  "stringEnd = (Token (\<lambda>instring loc doActions.
     if loc < length instring then Inl (ParseException loc)
     else if loc = length instring then Inr (loc + 1, ([], []))
     else Inr (loc, ([], []))))\<lparr>mayIndexError := False\<rparr>"

text \<open>
  \<^verbatim>\<open>QuotedString('"""', multiline=True)\<close> compiles the regular expression
  \<^verbatim>\<open>"""(?:[^"]|(?:""[^"])|(?:"[^"]))*"""\<close>. \<open>quoted_body\<close> is the backtracking match of
  the starred group and the closing quotes from position \<open>i\<close>: one more round of
  the group first, its alternatives in order, then the closing quotes. The token is the
  match without the quotes. \<^verbatim>\<open>parseImpl\<close> starts with \<^verbatim>\<open>instring[loc]\<close>, and the element has
  \<^verbatim>\<open>mayIndexError = False\<close>.
\<close>

definition quote :: char where
  "quote = CHR 0x22"

function quoted_body :: "string \<Rightarrow> nat \<Rightarrow> nat option" where
  "quoted_body instring i =
     (case (if i < length instring \<and> instring ! i \<noteq> quote
            then quoted_body instring (i + 1) else None) of
        Some e \<Rightarrow> Some e
      | None \<Rightarrow>
     (case (if i + 2 < length instring \<and> instring ! i = quote \<and> instring ! (i + 1) = quote
               \<and> instring ! (i + 2) \<noteq> quote
            then quoted_body instring (i + 3) else None) of
        Some e \<Rightarrow> Some e
      | None \<Rightarrow>
     (case (if i + 1 < length instring \<and> instring ! i = quote \<and> instring ! (i + 1) \<noteq> quote
            then quoted_body instring (i + 2) else None) of
        Some e \<Rightarrow> Some e
      | None \<Rightarrow>
          if startswith instring [quote, quote, quote] i then Some (i + 3) else None)))"
  by pat_completeness auto
termination
  by (relation "measure (\<lambda>(instring, i). length instring - i)") auto

declare quoted_body.simps [simp del]

definition MULTILINE :: element where
  "MULTILINE = (Token (\<lambda>instring loc doActions.
     if length instring \<le> loc then Inl IndexError
     else if startswith instring [quote, quote, quote] loc then
       (case quoted_body instring (loc + 3) of
          None \<Rightarrow> Inl (ParseException loc)
        | Some e \<Rightarrow> Inr (e, ([Str (take (e - 3 - (loc + 3)) (drop (loc + 3) instring))], [])))
     else Inl (ParseException loc)))\<lparr>mayIndexError := False\<rparr>"

section \<open>The pyparsing combinators\<close>

definition add_results :: "results \<Rightarrow> results \<Rightarrow> results" where
  "add_results a b = (fst a @ fst b, snd a @ snd b)"

text \<open>
  \<^verbatim>\<open>And\<close>: the first expression without \<^verbatim>\<open>preParse\<close> (the \<^verbatim>\<open>And\<close> did it, with the first
  expression's white space), the others with it; the results are added up. An \<^verbatim>\<open>And\<close> has
  \<^verbatim>\<open>callPreparse\<close> and \<^verbatim>\<open>mayIndexError\<close>.
\<close>

fun And_loop ::
  "element list \<Rightarrow> string \<Rightarrow> nat \<Rightarrow> bool \<Rightarrow> results \<Rightarrow> exn + nat \<times> results" where
  "And_loop [] instring loc doActions resultlist = Inr (loc, resultlist)"
| "And_loop (e # es) instring loc doActions resultlist =
     (case parseNoCache e instring loc doActions True of
        Inl x \<Rightarrow> Inl x
      | Inr (loc', exprtokens) \<Rightarrow>
          And_loop es instring loc' doActions (add_results resultlist exprtokens))"

definition And :: "element list \<Rightarrow> element" where
  "And exprs =
     (case exprs of
        [] \<Rightarrow> Token (\<lambda>instring loc doActions. Inl IndexError)
      | e # es \<Rightarrow>
          \<lparr>skipWhitespace = skipWhitespace e, whiteChars = whiteChars e,
           callPreparse = True, mayIndexError = True,
           parseImpl = (\<lambda>instring loc doActions.
             case parseNoCache e instring loc doActions False of
               Inl x \<Rightarrow> Inl x
             | Inr (loc', resultlist) \<Rightarrow> And_loop es instring loc' doActions resultlist),
           postParse = (\<lambda>r. r), resultsName = None, parseAction = None\<rparr>)"

text \<open>
  \<^verbatim>\<open>MatchFirst\<close>: the first alternative that matches; when none does, the exception
  that got furthest (the first of those), an \<^verbatim>\<open>IndexError\<close> counting as an exception at the
  end of the string. A \<^verbatim>\<open>MatchFirst\<close> has \<^verbatim>\<open>callPreparse = False\<close>: it skips no white space
  itself, its alternatives do.
\<close>

fun MatchFirst_loop ::
  "element list \<Rightarrow> string \<Rightarrow> nat \<Rightarrow> bool \<Rightarrow> nat option \<Rightarrow> exn + nat \<times> results" where
  "MatchFirst_loop [] instring loc doActions maxExcLoc =
     (case maxExcLoc of Some l \<Rightarrow> Inl (ParseException l) | None \<Rightarrow> Inl (ParseException loc))"
| "MatchFirst_loop (e # es) instring loc doActions maxExcLoc =
     (case parseNoCache e instring loc doActions True of
        Inr ret \<Rightarrow> Inr ret
      | Inl (ParseException l) \<Rightarrow>
          MatchFirst_loop es instring loc doActions
            (case maxExcLoc of
               None \<Rightarrow> Some l
             | Some m \<Rightarrow> if m < l then Some l else Some m)
      | Inl IndexError \<Rightarrow>
          MatchFirst_loop es instring loc doActions
            (case maxExcLoc of
               None \<Rightarrow> Some (length instring)
             | Some m \<Rightarrow> if m < length instring then Some (length instring) else Some m)
      | Inl x \<Rightarrow> Inl x)"

definition MatchFirst :: "element list \<Rightarrow> element" where
  "MatchFirst exprs = (Token (\<lambda>instring loc doActions.
     MatchFirst_loop exprs instring loc doActions None))\<lparr>callPreparse := False\<rparr>"

text \<open>
  \<^verbatim>\<open>ParseElementEnhance\<close>: the white space, \<^verbatim>\<open>callPreparse\<close> and \<^verbatim>\<open>mayIndexError\<close> of the
  wrapped expression, which is then parsed without \<^verbatim>\<open>preParse\<close>. \<^verbatim>\<open>Group\<close> nests the results
  as one token, \<^verbatim>\<open>Suppress\<close> drops them, \<^verbatim>\<open>Optional\<close> returns no token where the expression
  fails (\<^verbatim>\<open>except (ParseException, IndexError)\<close>).
\<close>

definition ParseElementEnhance :: "element \<Rightarrow> element" where
  "ParseElementEnhance expr =
     \<lparr>skipWhitespace = skipWhitespace expr, whiteChars = whiteChars expr,
      callPreparse = callPreparse expr, mayIndexError = mayIndexError expr,
      parseImpl = (\<lambda>instring loc doActions. parseNoCache expr instring loc doActions False),
      postParse = (\<lambda>r. r), resultsName = None, parseAction = None\<rparr>"

definition Group :: "element \<Rightarrow> element" where
  "Group expr = (ParseElementEnhance expr)
     \<lparr>postParse := (\<lambda>tokenlist. ([ParseResults (fst tokenlist) (snd tokenlist)], []))\<rparr>"

definition Suppress :: "element \<Rightarrow> element" where
  "Suppress expr = (ParseElementEnhance expr)\<lparr>postParse := (\<lambda>tokenlist. ([], []))\<rparr>"

definition Optional :: "element \<Rightarrow> element" where
  "Optional expr = (ParseElementEnhance expr)
     \<lparr>parseImpl := (\<lambda>instring loc doActions.
        case parseNoCache expr instring loc doActions False of
          Inl (ParseException l) \<Rightarrow> Inr (loc, ([], []))
        | Inl IndexError \<Rightarrow> Inr (loc, ([], []))
        | Inl x \<Rightarrow> Inl x
        | Inr ret \<Rightarrow> Inr ret)\<rparr>"

text \<open>
  The \<^verbatim>\<open>while 1\<close> loop of \<^verbatim>\<open>ZeroOrMore\<close> and \<^verbatim>\<open>OneOrMore\<close> ends at the first
  \<^verbatim>\<open>ParseException\<close> or \<^verbatim>\<open>IndexError\<close>. A round that succeeds without moving forward would
  be repeated for ever.
\<close>

function many_loop ::
  "element \<Rightarrow> string \<Rightarrow> nat \<Rightarrow> bool \<Rightarrow> results \<Rightarrow> exn + nat \<times> results" where
  "many_loop expr instring loc doActions tokens =
     (case parseNoCache expr instring loc doActions True of
        Inl (ParseException l) \<Rightarrow> Inr (loc, tokens)
      | Inl IndexError \<Rightarrow> Inr (loc, tokens)
      | Inl x \<Rightarrow> Inl x
      | Inr (loc', tmptokens) \<Rightarrow>
          if loc < loc' \<and> loc' \<le> Suc (length instring)
          then many_loop expr instring loc' doActions (add_results tokens tmptokens)
          else Inl NonTermination)"
  by pat_completeness auto
termination
  by (relation "measure (\<lambda>(expr, instring, loc, doActions, tokens). Suc (length instring) - loc)")
     auto

declare many_loop.simps [simp del]

definition ZeroOrMore :: "element \<Rightarrow> element" where
  "ZeroOrMore expr = (ParseElementEnhance expr)
     \<lparr>parseImpl := (\<lambda>instring loc doActions.
        case parseNoCache expr instring loc doActions False of
          Inl (ParseException l) \<Rightarrow> Inr (loc, ([], []))
        | Inl IndexError \<Rightarrow> Inr (loc, ([], []))
        | Inl x \<Rightarrow> Inl x
        | Inr (loc', tokens) \<Rightarrow> many_loop expr instring loc' doActions tokens)\<rparr>"

definition OneOrMore :: "element \<Rightarrow> element" where
  "OneOrMore expr = (ParseElementEnhance expr)
     \<lparr>parseImpl := (\<lambda>instring loc doActions.
        case parseNoCache expr instring loc doActions False of
          Inl x \<Rightarrow> Inl x
        | Inr (loc', tokens) \<Rightarrow> many_loop expr instring loc' doActions tokens)\<rparr>"

text \<open>
  \<^verbatim>\<open>SkipTo\<close>: the first location from which the expression matches (tried without
  parse actions and without \<^verbatim>\<open>preParse\<close>, a \<^verbatim>\<open>ParseException\<close> or an \<^verbatim>\<open>IndexError\<close>
  moving on by one character); the token is the text skipped.
\<close>

function SkipTo_loop :: "element \<Rightarrow> string \<Rightarrow> nat \<Rightarrow> nat \<Rightarrow> exn + nat \<times> results" where
  "SkipTo_loop expr instring startLoc loc =
     (if loc \<le> length instring then
        (case parseNoCache expr instring loc False False of
           Inr ret \<Rightarrow> Inr (loc, ([Str (take (loc - startLoc) (drop startLoc instring))], []))
         | Inl (ParseException l) \<Rightarrow> SkipTo_loop expr instring startLoc (loc + 1)
         | Inl IndexError \<Rightarrow> SkipTo_loop expr instring startLoc (loc + 1)
         | Inl x \<Rightarrow> Inl x)
      else Inl (ParseException loc))"
  by pat_completeness auto
termination
  by (relation "measure (\<lambda>(expr, instring, startLoc, loc). Suc (length instring) - loc)") auto

declare SkipTo_loop.simps [simp del]

definition SkipTo :: "element \<Rightarrow> element" where
  "SkipTo expr = (ParseElementEnhance expr)
     \<lparr>parseImpl := (\<lambda>instring loc doActions. SkipTo_loop expr instring loc loc)\<rparr>"

section \<open>The grammar of \<^verbatim>\<open>lettuce/parser.py\<close>\<close>

definition EOL :: element where
  "EOL = Suppress lineEnd"

definition TAG :: element where
  "TAG = setParseAction (construct Tag_init)
     (And [Suppress (Literal ''@''), Word printables, EOL])"

text \<open>\<^verbatim>\<open>str.strip()\<close>: the white space of Python at both ends is removed.\<close>

definition isspace :: "char \<Rightarrow> bool" where
  "isspace c = (c \<in> set [CHR '' '', CHR 0x09, CHR 0x0A, CHR 0x0B, CHR 0x0C, CHR 0x0D])"

definition strip :: "string \<Rightarrow> string" where
  "strip s = rev (dropWhile isspace (rev (dropWhile isspace s)))"

fun strip_tokens :: "pyval list \<Rightarrow> exn + pyval list" where
  "strip_tokens [] = Inr []"
| "strip_tokens (v # vs) =
     (case v of
        Str x \<Rightarrow> (case strip_tokens vs of Inl e \<Rightarrow> Inl e | Inr ys \<Rightarrow> Inr (Str (strip x) # ys))
      | _ \<Rightarrow> Inl AttributeError)"

definition TABLE_ROW :: element where
  "TABLE_ROW = setParseAction (\<lambda>tokens. strip_tokens (fst tokens))
     (And [Suppress (Literal ''|''),
           OneOrMore (And [CharsNotIn [CHR ''|'', CHR 0x0A], Suppress (Literal ''|'')]),
           EOL])"

definition TABLE :: element where
  "TABLE = named (Group (OneOrMore (Group TABLE_ROW))) ''table''"

definition STATEMENT :: element where
  "STATEMENT = setParseAction (construct Statement_init)
     (And [MatchFirst [Keyword ''Given'', Keyword ''When'', Keyword ''Then'', Keyword ''And''],
           restOfLine,
           Optional (MatchFirst [TABLE, MULTILINE])])"

definition BACKGROUND_DEFN :: element where
  "BACKGROUND_DEFN = setParseAction (construct Background_init)
     (Suppress (And [Keyword ''Background'', Literal '':'', EOL]))"

definition BACKGROUND :: element where
  "BACKGROUND = setParseAction (construct Block_add_statements)
     (Group (And [named BACKGROUND_DEFN ''node'',
                  named (Group (ZeroOrMore STATEMENT)) ''statements'']))"

definition SCENARIO_DEFN :: element where
  "SCENARIO_DEFN = setParseAction (construct Scenario_init)
     (Group (And [named (Group (ZeroOrMore TAG)) ''tags'',
                  Suppress (And [And [Keyword ''Scenario'', Optional (Keyword ''Outline'')],
                                 Literal '':'', White]),
                  named restOfLine ''name'']))"

definition SCENARIO :: element where
  "SCENARIO = setParseAction (construct Scenario_add_statements)
     (Group (And [named SCENARIO_DEFN ''node'',
                  named (Group (ZeroOrMore STATEMENT)) ''statements'',
                  Optional (And [Suppress (And [Keyword ''Examples'', Literal '':'']),
                                 EOL,
                                 named TABLE ''examples''])]))"

definition FEATURE_DEFN :: element where
  "FEATURE_DEFN = setParseAction (construct Feature_init)
     (Group (And [named (Group (ZeroOrMore TAG)) ''tags'',
                  Suppress (And [Keyword ''Feature'', Literal '':'', White]),
                  named restOfLine ''name'']))"

definition FEATURE :: element where
  "FEATURE = setParseAction (construct Feature_add_blocks)
     (Group (And [named FEATURE_DEFN ''node'',
                  named (Group (SkipTo (MatchFirst [BACKGROUND, SCENARIO]))) ''description'',
                  Optional (named BACKGROUND ''background''),
                  named (Group (OneOrMore SCENARIO)) ''scenarios'',
                  stringEnd]))"

section \<open>\<^verbatim>\<open>parseString\<close> and \<^verbatim>\<open>from_string\<close>\<close>

text \<open>
  \<^verbatim>\<open>parseString\<close> expands the tabs of the input first (\<^verbatim>\<open>str.expandtabs()\<close>, tab stops
  every 8 columns, the column counted from the last newline or return), then parses
  from location 0.
\<close>

fun expandtabs_from :: "nat \<Rightarrow> string \<Rightarrow> string" where
  "expandtabs_from j [] = []"
| "expandtabs_from j (c # cs) =
     (if c = CHR 0x09 then replicate (8 - j mod 8) CHR '' '' @ expandtabs_from (j + (8 - j mod 8)) cs
      else if c = CHR 0x0A \<or> c = CHR 0x0D then c # expandtabs_from 0 cs
      else c # expandtabs_from (j + 1) cs)"

definition expandtabs :: "string \<Rightarrow> string" where
  "expandtabs s = expandtabs_from 0 s"

definition parseString :: "element \<Rightarrow> string \<Rightarrow> exn + results" where
  "parseString e instring =
     (case parseNoCache e (expandtabs instring) 0 True True of
        Inl x \<Rightarrow> Inl x
      | Inr (loc, tokens) \<Rightarrow> Inr tokens)"

text \<open>
  The attributes of a \<^verbatim>\<open>ParseException\<close> on the string \<open>strg\<close> at \<open>loc\<close>:
  \<^verbatim>\<open>lineno = strg.count("\n", 0, loc) + 1\<close>,
  \<^verbatim>\<open>col = 1 if loc < len(strg) and strg[loc] == '\n' else loc - strg.rfind("\n", 0, loc)\<close>,
  and \<^verbatim>\<open>line\<close>, the text between the newline before \<open>loc\<close> and the next newline from
  \<open>loc\<close> on.
\<close>

definition newline :: char where
  "newline = CHR 0x0A"

definition lineno :: "nat \<Rightarrow> string \<Rightarrow> nat" where
  "lineno loc strg = length (filter (\<lambda>c. c = newline) (take loc strg)) + 1"

text \<open>\<^verbatim>\<open>strg.rfind("\n", 0, loc) + 1\<close>: the start of the line of \<open>loc\<close> (0 when \<^verbatim>\<open>rfind\<close> is -1).\<close>

definition line_start :: "nat \<Rightarrow> string \<Rightarrow> nat" where
  "line_start loc strg =
     length (take loc strg) - length (takeWhile (\<lambda>c. c \<noteq> newline) (rev (take loc strg)))"

definition col :: "nat \<Rightarrow> string \<Rightarrow> nat" where
  "col loc strg =
     (if loc < length strg \<and> strg ! loc = newline then 1 else loc + 1 - line_start loc strg)"

definition line :: "nat \<Rightarrow> string \<Rightarrow> string" where
  "line loc strg =
     (let lastCR1 = line_start loc strg
      in drop lastCR1 (take loc strg) @ takeWhile (\<lambda>c. c \<noteq> newline) (drop loc strg))"

text \<open>Python's \<^verbatim>\<open>str\<close> of a non-negative integer.\<close>

fun str_nat :: "nat \<Rightarrow> string" where
  "str_nat n =
     (if n < 10 then [char_of (48 + n)] else str_nat (n div 10) @ [char_of (48 + n mod 10)])"

declare str_nat.simps [simp del]

text \<open>
  \<^verbatim>\<open>from_string\<close> returns \<^verbatim>\<open>tokens[0]\<close>. On a \<^verbatim>\<open>ParseException\<close> it prints the line number,
  the line and a caret under the column, and raises the exception again; the model
  returns the printed lines with the result. (The two prints that follow, of the parser
  element and of the whole string, are left out.) Any other exception passes through.
\<close>

definition from_string :: "string \<Rightarrow> string list \<times> (exn + pyval)" where
  "from_string string =
     (case parseString FEATURE string of
        Inr tokens \<Rightarrow>
          (case fst tokens of [] \<Rightarrow> ([], Inl IndexError) | t # ts \<Rightarrow> ([], Inr t))
      | Inl (ParseException loc) \<Rightarrow>
          (let pstr = expandtabs string in
           ([''Syntax Error, line '' @ str_nat (lineno loc pstr),
             line loc pstr,
             replicate (col loc pstr - 1) CHR '' '' @ ''^''],
            Inl (ParseException loc)))
      | Inl x \<Rightarrow> ([], Inl x))"

section \<open>The registries\<close>

text \<open>
  \<^verbatim>\<open>aloe/testing.py\<close> resets the registries before a run
  (\<^verbatim>\<open>CALLBACK_REGISTRY.clear(priority_class=PriorityClass.USER)\<close>, \<^verbatim>\<open>STEP_REGISTRY.clear()\<close>);
  \<^verbatim>\<open>aloe/registry.py\<close> itself is not among the sources.
\<close>





section \<open>Source text of well-formed fragments\<close>

text \<open>
  The theorems about the grammar speak of input that holds a fragment written the
  usual way. A table row is \<^verbatim>\<open>|cell|cell|...|\<close> and a newline; a cell is any non-empty
  text without \<^verbatim>\<open>|\<close> and newline (its surrounding blanks are part of it). The rows of a
  table stand one per line behind the same indentation.
\<close>

definition render_row :: "string list \<Rightarrow> string" where
  "render_row cells = ''|'' @ concat (map (\<lambda>c. c @ ''|'') cells) @ [CHR 0x0A]"

definition render_table :: "string \<Rightarrow> string list list \<Rightarrow> string" where
  "render_table ind rows = concat (map (\<lambda>cells. ind @ render_row cells) rows)"

definition valid_cell :: "string \<Rightarrow> bool" where
  "valid_cell c = (c \<noteq> [] \<and> CHR ''|'' \<notin> set c \<and> CHR 0x0A \<notin> set c)"

definition valid_row :: "string list \<Rightarrow> bool" where
  "valid_row cells = (cells \<noteq> [] \<and> list_all valid_cell cells)"

text \<open>White space only: what \<^verbatim>\<open>preParse\<close> skips by default.\<close>

definition blank :: "string \<Rightarrow> bool" where
  "blank ws = list_all (\<lambda>c. c \<in> set DEFAULT_WHITE_CHARS) ws"

text \<open>The first character of \<open>rest\<close> behind its leading white space, if any.\<close>

definition next_char :: "string \<Rightarrow> char option" where
  "next_char rest =
     (case dropWhile (\<lambda>c. c \<in> set DEFAULT_WHITE_CHARS) rest of [] \<Rightarrow> None | c # cs \<Rightarrow> Some c)"



text \<open>The keywords that start a step.\<close>

definition step_keywords :: "string list" where
  "step_keywords = [''Given'', ''When'', ''Then'', ''And'']"

text \<open>
  A keyword matches at \<open>loc\<close> only if no identifier character stands right before it.
\<close>

definition word_start :: "string \<Rightarrow> nat \<Rightarrow> bool" where
  "word_start instring loc = (loc = 0 \<or> instring ! (loc - 1) \<notin> set identChars)"

text \<open>The rest of a line: no newline in it.\<close>

definition one_line :: "string \<Rightarrow> bool" where
  "one_line text = (CHR 0x0A \<notin> set text)"


definition render_tags :: "string \<Rightarrow> string list \<Rightarrow> string" where
  "render_tags ind tags = concat (map (\<lambda>t. ind @ ''@'' @ t @ [CHR 0x0A]) tags)"



text \<open>Names for parts of the grammar that the lemmas below speak of.\<close>

abbreviation CELL :: element where
  "CELL \<equiv> And [CharsNotIn [CHR ''|'', CHR 0x0A], Suppress (Literal ''|'')]"

abbreviation KW :: element where
  "KW \<equiv> MatchFirst [Keyword ''Given'', Keyword ''When'', Keyword ''Then'', Keyword ''And'']"

abbreviation PAY :: element where
  "PAY \<equiv> Optional (MatchFirst [TABLE, MULTILINE])"

abbreviation QQQ :: string where
  "QQQ \<equiv> [quote, quote, quote]"

abbreviation row_tokens :: "string list \<Rightarrow> pyval" where
  "row_tokens r \<equiv> ParseResults (map (\<lambda>c. Str (strip c)) r) []"


abbreviation TAGS :: element where
  "TAGS \<equiv> named (Group (ZeroOrMore TAG)) ''tags''"



section \<open>Predicates on the results of an element\<close>

text \<open>
  What the lemmas say of an element: it returns, or it raises a \<^verbatim>\<open>ParseException\<close>, or an
  \<^verbatim>\<open>IndexError\<close> when it is an element without \<^verbatim>\<open>mayIndexError\<close>, and nothing else
  (\<open>sound\<close>), and the location it returns lies between the location it was
  given, cut at the end of the string, and one past the end (\<open>within\<close>). An element is
  \<open>consuming\<close> when it matches at least one character. The other predicates give the shape
  of the tokens: one token, many tokens, no token, a group, one token that is named.
\<close>

fun is_ParseException :: "exn \<Rightarrow> bool" where
  "is_ParseException (ParseException l) = True"
| "is_ParseException _ = False"

definition within :: "string \<Rightarrow> nat \<Rightarrow> nat \<Rightarrow> bool" where
  "within s loc l = (min loc (length s) \<le> l \<and> l \<le> max loc (Suc (length s)))"

definition fine0 :: "string \<Rightarrow> nat \<Rightarrow> (results \<Rightarrow> bool) \<Rightarrow> exn + nat \<times> results \<Rightarrow> bool" where
  "fine0 s loc P res =
     (case res of Inl x \<Rightarrow> is_ParseException x \<or> x = IndexError
      | Inr (l, r) \<Rightarrow> within s loc l \<and> P r)"

definition fine ::
  "element \<Rightarrow> string \<Rightarrow> nat \<Rightarrow> (results \<Rightarrow> bool) \<Rightarrow> exn + nat \<times> results \<Rightarrow> bool" where
  "fine e s loc P res = (fine0 s loc P res \<and> (mayIndexError e \<longrightarrow> res \<noteq> Inl IndexError))"

definition sound :: "bool \<Rightarrow> (results \<Rightarrow> bool) \<Rightarrow> element \<Rightarrow> bool" where
  "sound da P e = (\<forall>s loc cpp. fine e s loc P (parseNoCache e s loc da cpp))"

definition consuming :: "bool \<Rightarrow> element \<Rightarrow> bool" where
  "consuming da e =
     (\<forall>s loc cpp l r. parseNoCache e s loc da cpp = Inr (l, r) \<longrightarrow> loc < length s \<and> loc < l)"

fun is_Str :: "pyval \<Rightarrow> bool" where
  "is_Str (Str x) = True"
| "is_Str _ = False"

definition single :: "(pyval \<Rightarrow> bool) \<Rightarrow> results \<Rightarrow> bool" where
  "single Q r = (case r of ([v], []) \<Rightarrow> Q v | _ \<Rightarrow> False)"

definition many :: "(pyval \<Rightarrow> bool) \<Rightarrow> results \<Rightarrow> bool" where
  "many Q r = (list_all Q (fst r) \<and> snd r = [])"

definition many1 :: "(pyval \<Rightarrow> bool) \<Rightarrow> results \<Rightarrow> bool" where
  "many1 Q r = (many Q r \<and> fst r \<noteq> [])"

definition none :: "results \<Rightarrow> bool" where
  "none r = (r = ([], []))"

fun grouped :: "(results \<Rightarrow> bool) \<Rightarrow> pyval \<Rightarrow> bool" where
  "grouped P (ParseResults toklist tokdict) = P (toklist, tokdict)"
| "grouped P _ = False"

definition named_single :: "string \<Rightarrow> (pyval \<Rightarrow> bool) \<Rightarrow> results \<Rightarrow> bool" where
  "named_single n Q r = (case r of ([v], [(m, w)]) \<Rightarrow> m = n \<and> w = v \<and> Q v | _ \<Rightarrow> False)"

abbreviation is_row :: "pyval \<Rightarrow> bool" where
  "is_row \<equiv> grouped (many1 is_Str)"

abbreviation is_table :: "pyval \<Rightarrow> bool" where
  "is_table \<equiv> grouped (many1 is_row)"

text \<open>A Statement with at most one payload, and the tokens \<^verbatim>\<open>Optional(TABLE | MULTILINE)\<close> gives.\<close>

fun one_payload :: "pyval \<Rightarrow> bool" where
  "one_payload (Statement s tbl ml) = (tbl = None \<or> ml = None)"
| "one_payload _ = False"

definition payload :: "results \<Rightarrow> bool" where
  "payload r = (case fst r of [] \<Rightarrow> True | [v] \<Rightarrow> is_table v \<or> is_Str v | _ \<Rightarrow> False)"

section \<open>Unfolding the elements\<close>

lemma skip_white_eq:
  "skip_white wt s loc = loc + length (takeWhile (\<lambda>c. c \<in> set wt) (drop loc s))"
proof (induction wt s loc rule: skip_white.induct)
  case (1 wt s loc)
  show ?case
  proof (cases "loc < length s")
    case True
    then have d: "drop loc s = s ! loc # drop (Suc loc) s" by (simp add: Cons_nth_drop_Suc)
    show ?thesis
    proof (cases "s ! loc \<in> set wt")
      case T: True
      with True 1 show ?thesis by (subst skip_white.simps) (simp add: d)
    next
      case False
      with True show ?thesis by (subst skip_white.simps) (simp add: d)
    qed
  next
    case False
    then show ?thesis by (subst skip_white.simps) simp
  qed
qed

lemma sum_case_id: "(case x of Inl e \<Rightarrow> Inl e | Inr (l, r) \<Rightarrow> Inr (l, r)) = x"
  by (cases x) auto

lemma catch_simps [simp]:
  "catch_IndexError e s loc (Inr x) = Inr x"
  "catch_IndexError e s loc (Inl (ParseException l)) = Inl (ParseException l)"
  "mayIndexError e \<Longrightarrow> catch_IndexError e s loc (Inl IndexError) = Inl (ParseException (length s))"
  "length s \<le> loc \<Longrightarrow> catch_IndexError e s loc (Inl IndexError) = Inl (ParseException (length s))"
  by (simp_all add: catch_IndexError_def)

lemma catch_Inr [simp]: "catch_IndexError e s loc res = Inr x \<longleftrightarrow> res = Inr x"
  by (auto simp: catch_IndexError_def split: sum.splits exn.splits)

lemma catch_other:
  "x \<noteq> IndexError \<Longrightarrow> catch_IndexError e s loc (Inl x) = Inl x"
  by (cases x) (simp_all add: catch_IndexError_def)

lemma catch_cong:
  "mayIndexError a = mayIndexError b \<Longrightarrow> catch_IndexError a = catch_IndexError b"
  by (auto simp: catch_IndexError_def fun_eq_iff)

lemma catch_id:
  "res \<noteq> Inl IndexError \<Longrightarrow> catch_IndexError e s loc res = res"
  by (auto simp: catch_IndexError_def split: sum.splits exn.splits)

lemma plain_element:
  "parseAction e = None \<Longrightarrow> resultsName e = None \<Longrightarrow> postParse e = (\<lambda>r. r) \<Longrightarrow>
   parseNoCache e s loc da cpp =
     catch_IndexError e s loc
       (parseImpl e s (if cpp \<and> callPreparse e then preParse e s loc else loc) da)"
  by (cases "catch_IndexError e s loc
       (parseImpl e s (if cpp \<and> callPreparse e then preParse e s loc else loc) da)")
     (auto simp: parseNoCache_def Let_def)

lemma Token_sel [simp]:
  "skipWhitespace (Token impl) = True" "whiteChars (Token impl) = DEFAULT_WHITE_CHARS"
  "callPreparse (Token impl) = True" "mayIndexError (Token impl) = True"
  "parseImpl (Token impl) = impl" "postParse (Token impl) = (\<lambda>r. r)"
  "resultsName (Token impl) = None" "parseAction (Token impl) = None"
  by (simp_all add: Token_def)

lemma Enhance_sel [simp]:
  "skipWhitespace (ParseElementEnhance e) = skipWhitespace e"
  "whiteChars (ParseElementEnhance e) = whiteChars e"
  "callPreparse (ParseElementEnhance e) = callPreparse e"
  "mayIndexError (ParseElementEnhance e) = mayIndexError e"
  "parseImpl (ParseElementEnhance e) = (\<lambda>s loc da. parseNoCache e s loc da False)"
  "postParse (ParseElementEnhance e) = (\<lambda>r. r)"
  "resultsName (ParseElementEnhance e) = None" "parseAction (ParseElementEnhance e) = None"
  by (simp_all add: ParseElementEnhance_def)

lemma preParse_cong: "skipWhitespace a = skipWhitespace b \<Longrightarrow> whiteChars a = whiteChars b \<Longrightarrow> preParse a = preParse b"
  by (auto simp: preParse_def fun_eq_iff)

lemma preParse_wrap [simp]:
  "preParse (Suppress e) = preParse e" "preParse (Group e) = preParse e"
  "preParse (Optional e) = preParse e" "preParse (ZeroOrMore e) = preParse e"
  "preParse (OneOrMore e) = preParse e" "preParse (SkipTo e) = preParse e"
  "preParse (setParseAction fn e) = preParse e" "preParse (named e n) = preParse e"
  "preParse (And (e # es)) = preParse e"
  by (rule preParse_cong; simp add: Suppress_def Group_def Optional_def ZeroOrMore_def
        OneOrMore_def SkipTo_def setParseAction_def named_def And_def)+

lemma callPreparse_wrap [simp]:
  "callPreparse (Suppress e) = callPreparse e" "callPreparse (Group e) = callPreparse e"
  "callPreparse (Optional e) = callPreparse e" "callPreparse (ZeroOrMore e) = callPreparse e"
  "callPreparse (OneOrMore e) = callPreparse e" "callPreparse (SkipTo e) = callPreparse e"
  "callPreparse (setParseAction fn e) = callPreparse e" "callPreparse (named e n) = callPreparse e"
  "callPreparse (And (e # es)) = True" "callPreparse (MatchFirst es') = False"
  by (simp_all add: Suppress_def Group_def Optional_def ZeroOrMore_def
        OneOrMore_def SkipTo_def setParseAction_def named_def And_def MatchFirst_def)

lemma mayIndexError_wrap [simp]:
  "mayIndexError (Suppress e) = mayIndexError e" "mayIndexError (Group e) = mayIndexError e"
  "mayIndexError (Optional e) = mayIndexError e" "mayIndexError (ZeroOrMore e) = mayIndexError e"
  "mayIndexError (OneOrMore e) = mayIndexError e" "mayIndexError (SkipTo e) = mayIndexError e"
  "mayIndexError (setParseAction fn e) = mayIndexError e" "mayIndexError (named e n) = mayIndexError e"
  "mayIndexError (And es) = True" "mayIndexError (MatchFirst es') = True"
  by (simp_all add: Suppress_def Group_def Optional_def ZeroOrMore_def
        OneOrMore_def SkipTo_def setParseAction_def named_def And_def MatchFirst_def
        split: list.splits)

lemma catch_wrap [simp]:
  "catch_IndexError (Suppress e) = catch_IndexError e"
  "catch_IndexError (Group e) = catch_IndexError e"
  "catch_IndexError (Optional e) = catch_IndexError e"
  "catch_IndexError (ZeroOrMore e) = catch_IndexError e"
  "catch_IndexError (OneOrMore e) = catch_IndexError e"
  "catch_IndexError (SkipTo e) = catch_IndexError e"
  "catch_IndexError (setParseAction fn e) = catch_IndexError e"
  "catch_IndexError (named e n) = catch_IndexError e"
  by (rule catch_cong; simp)+

lemma preParse_Token [simp]: "preParse (Token impl) s loc = skip_white DEFAULT_WHITE_CHARS s loc"
  by (simp add: preParse_def)

lemma pN_Token:
  "parseNoCache (Token impl) s loc da cpp =
     catch_IndexError (Token impl) s loc
       (impl s (if cpp then skip_white DEFAULT_WHITE_CHARS s loc else loc) da)"
  by (simp add: plain_element)

lemma pN_enhance:
  assumes "parseImpl w = (\<lambda>s loc da. parseNoCache e s loc da False)"
    and "preParse w = preParse e" "callPreparse w = callPreparse e"
    and "catch_IndexError w = catch_IndexError e"
    and "resultsName w = None" "parseAction w = None" "postParse w = f"
  shows "parseNoCache w s loc da cpp =
     (case catch_IndexError e s loc
             (parseNoCache e s (if cpp \<and> callPreparse e then preParse e s loc else loc) da False) of
        Inl x \<Rightarrow> Inl x | Inr (l, r) \<Rightarrow> Inr (l, f r))"
  unfolding parseNoCache_def [of w] Let_def assms
  by (auto split: sum.splits)

lemma wrap_sel [simp]:
  "parseAction (Suppress e) = None" "resultsName (Suppress e) = None"
  "parseAction (Group e) = None" "resultsName (Group e) = None"
  "parseAction (Optional e) = None" "resultsName (Optional e) = None"
  "parseAction (ZeroOrMore e) = None" "resultsName (ZeroOrMore e) = None"
  "parseAction (OneOrMore e) = None" "resultsName (OneOrMore e) = None"
  "parseAction (SkipTo e) = None" "resultsName (SkipTo e) = None"
  "parseAction (And es) = None" "resultsName (And es) = None"
  "parseAction (MatchFirst es) = None" "resultsName (MatchFirst es) = None"
  by (simp_all add: Suppress_def Group_def Optional_def ZeroOrMore_def OneOrMore_def SkipTo_def
       And_def MatchFirst_def split: list.splits)

lemma wrap_impl:
  "parseImpl (Suppress e) = (\<lambda>s loc da. parseNoCache e s loc da False)"
  "parseImpl (Group e) = (\<lambda>s loc da. parseNoCache e s loc da False)"
  "postParse (Suppress e) = (\<lambda>r. ([], []))"
  "postParse (Group e) = (\<lambda>r. ([ParseResults (fst r) (snd r)], []))"
  "postParse (Optional e) = (\<lambda>r. r)" "postParse (ZeroOrMore e) = (\<lambda>r. r)"
  "postParse (OneOrMore e) = (\<lambda>r. r)" "postParse (SkipTo e) = (\<lambda>r. r)"
  "postParse (And es) = (\<lambda>r. r)" "postParse (MatchFirst es) = (\<lambda>r. r)"
  by (simp_all add: Suppress_def Group_def Optional_def ZeroOrMore_def OneOrMore_def SkipTo_def
       And_def MatchFirst_def split: list.splits)

lemma loop_impl:
  "parseImpl (Optional e) = (\<lambda>instring loc doActions.
        case parseNoCache e instring loc doActions False of
          Inl (ParseException l) \<Rightarrow> Inr (loc, ([], []))
        | Inl IndexError \<Rightarrow> Inr (loc, ([], []))
        | Inl x \<Rightarrow> Inl x
        | Inr ret \<Rightarrow> Inr ret)"
  "parseImpl (ZeroOrMore e) = (\<lambda>instring loc doActions.
        case parseNoCache e instring loc doActions False of
          Inl (ParseException l) \<Rightarrow> Inr (loc, ([], []))
        | Inl IndexError \<Rightarrow> Inr (loc, ([], []))
        | Inl x \<Rightarrow> Inl x
        | Inr (loc', tokens) \<Rightarrow> many_loop e instring loc' doActions tokens)"
  "parseImpl (OneOrMore e) = (\<lambda>instring loc doActions.
        case parseNoCache e instring loc doActions False of
          Inl x \<Rightarrow> Inl x
        | Inr (loc', tokens) \<Rightarrow> many_loop e instring loc' doActions tokens)"
  "parseImpl (SkipTo e) = (\<lambda>instring loc doActions. SkipTo_loop e instring loc loc)"
  "parseImpl (And (a # es)) = (\<lambda>instring loc doActions.
             case parseNoCache a instring loc doActions False of
               Inl x \<Rightarrow> Inl x
             | Inr (loc', resultlist) \<Rightarrow> And_loop es instring loc' doActions resultlist)"
  "parseImpl (MatchFirst es') = (\<lambda>instring loc doActions.
     MatchFirst_loop es' instring loc doActions None)"
  by (simp_all add: Optional_def ZeroOrMore_def OneOrMore_def SkipTo_def And_def MatchFirst_def)

lemma pN_Suppress:
  "parseNoCache (Suppress e) s loc da cpp =
     (case catch_IndexError e s loc
             (parseNoCache e s (if cpp \<and> callPreparse e then preParse e s loc else loc) da False) of
        Inl x \<Rightarrow> Inl x | Inr (l, r) \<Rightarrow> Inr (l, ([], [])))"
  by (subst pN_enhance [where e = e]) (simp_all add: wrap_impl)

lemma pN_Group:
  "parseNoCache (Group e) s loc da cpp =
     (case catch_IndexError e s loc
             (parseNoCache e s (if cpp \<and> callPreparse e then preParse e s loc else loc) da False) of
        Inl x \<Rightarrow> Inl x | Inr (l, r) \<Rightarrow> Inr (l, ([ParseResults (fst r) (snd r)], [])))"
  by (subst pN_enhance [where e = e]) (simp_all add: wrap_impl)

lemma pN_impl:
  assumes "resultsName w = None" "parseAction w = None" "postParse w = (\<lambda>r. r)"
  shows "parseNoCache w s loc da cpp =
     catch_IndexError w s loc
       (parseImpl w s (if cpp \<and> callPreparse w then preParse w s loc else loc) da)"
  by (rule plain_element [OF assms(2,1,3)])

lemma pN_Optional:
  "parseNoCache (Optional e) s loc da cpp =
     (let p = (if cpp \<and> callPreparse e then preParse e s loc else loc) in
      case parseNoCache e s p da False of
        Inl (ParseException l) \<Rightarrow> Inr (p, ([], []))
      | Inl IndexError \<Rightarrow> Inr (p, ([], []))
      | Inl x \<Rightarrow> Inl x
      | Inr ret \<Rightarrow> Inr ret)"
proof -
  have "parseNoCache (Optional e) s loc da cpp =
     catch_IndexError e s loc
       (parseImpl (Optional e) s (if cpp \<and> callPreparse e then preParse e s loc else loc) da)"
    by (subst pN_impl) (simp_all add: wrap_impl)
  then show ?thesis
    by (auto simp: loop_impl Let_def catch_IndexError_def split: sum.splits exn.splits)
qed

lemma MatchFirst_loop_no_IndexError: "MatchFirst_loop es s loc da m \<noteq> Inl IndexError"
proof (induction es arbitrary: m)
  case Nil
  then show ?case by (cases m) simp_all
next
  case (Cons e es)
  show ?case
  proof (cases "parseNoCache e s loc da True")
    case (Inl x)
    then show ?thesis using Cons by (cases x) simp_all
  next
    case (Inr r)
    then show ?thesis by simp
  qed
qed

lemma many_loop_no_IndexError: "many_loop e s loc da acc \<noteq> Inl IndexError"
proof (induction e s loc da acc rule: many_loop.induct)
  case (1 expr instring loc doActions tokens)
  show ?case
  proof (cases "parseNoCache expr instring loc doActions True")
    case (Inl x)
    then show ?thesis by (subst many_loop.simps) (cases x; simp)
  next
    case (Inr lr)
    obtain l r where lr: "lr = (l, r)" by (cases lr)
    show ?thesis using Inr lr 1 by (subst many_loop.simps) simp
  qed
qed

lemma SkipTo_loop_no_IndexError: "SkipTo_loop e s start loc \<noteq> Inl IndexError"
proof (induction e s start loc rule: SkipTo_loop.induct)
  case (1 expr instring startLoc loc)
  show ?case
  proof (cases "loc \<le> length instring")
    case False
    then show ?thesis by (subst SkipTo_loop.simps) simp
  next
    case True
    show ?thesis
    proof (cases "parseNoCache expr instring loc False False")
      case (Inl x)
      then show ?thesis using True 1 by (subst SkipTo_loop.simps) (cases x; simp)
    next
      case (Inr lr)
      then show ?thesis using True by (subst SkipTo_loop.simps) simp
    qed
  qed
qed

lemma pN_ZeroOrMore:
  "parseNoCache (ZeroOrMore e) s loc da cpp =
     (let p = (if cpp \<and> callPreparse e then preParse e s loc else loc) in
      case parseNoCache e s p da False of
        Inl (ParseException l) \<Rightarrow> Inr (p, ([], []))
      | Inl IndexError \<Rightarrow> Inr (p, ([], []))
      | Inl x \<Rightarrow> Inl x
      | Inr (loc', tokens) \<Rightarrow> many_loop e s loc' da tokens)"
proof -
  define p where "p = (if cpp \<and> callPreparse e then preParse e s loc else loc)"
  have a: "parseNoCache (ZeroOrMore e) s loc da cpp =
     catch_IndexError e s loc (parseImpl (ZeroOrMore e) s p da)"
    by (subst pN_impl) (simp_all add: wrap_impl p_def)
  have "parseImpl (ZeroOrMore e) s p da \<noteq> Inl IndexError"
    by (auto simp: loop_impl many_loop_no_IndexError split: sum.splits exn.splits)
  then show ?thesis using a by (simp add: catch_id loop_impl p_def [symmetric])
qed

lemma pN_OneOrMore:
  "parseNoCache (OneOrMore e) s loc da cpp =
     (let p = (if cpp \<and> callPreparse e then preParse e s loc else loc) in
      case catch_IndexError e s loc (parseNoCache e s p da False) of
        Inl x \<Rightarrow> Inl x
      | Inr (loc', tokens) \<Rightarrow> many_loop e s loc' da tokens)"
proof -
  define p where "p = (if cpp \<and> callPreparse e then preParse e s loc else loc)"
  have a: "parseNoCache (OneOrMore e) s loc da cpp =
     catch_IndexError e s loc (parseImpl (OneOrMore e) s p da)"
    by (subst pN_impl) (simp_all add: wrap_impl p_def)
  show ?thesis
  proof (cases "parseNoCache e s p da False")
    case (Inl x)
    then show ?thesis using a
      by (simp add: loop_impl p_def [symmetric] catch_IndexError_def split: exn.splits)
  next
    case (Inr lr)
    obtain l r where lr: "lr = (l, r)" by (cases lr)
    show ?thesis using a Inr lr
      by (simp add: loop_impl p_def [symmetric] catch_id many_loop_no_IndexError)
  qed
qed

lemma pN_SkipTo:
  "parseNoCache (SkipTo e) s loc da cpp =
     (let p = (if cpp \<and> callPreparse e then preParse e s loc else loc) in SkipTo_loop e s p p)"
proof -
  have "parseNoCache (SkipTo e) s loc da cpp =
     catch_IndexError e s loc (parseImpl (SkipTo e) s
        (if cpp \<and> callPreparse e then preParse e s loc else loc) da)"
    by (subst pN_impl) (simp_all add: wrap_impl)
  then show ?thesis by (simp add: loop_impl catch_id SkipTo_loop_no_IndexError Let_def)
qed

lemma pN_And:
  "parseNoCache (And (e # es)) s loc da cpp =
     catch_IndexError (And (e # es)) s loc
     (case parseNoCache e s (if cpp then preParse e s loc else loc) da False of
        Inl x \<Rightarrow> Inl x
      | Inr (loc', resultlist) \<Rightarrow> And_loop es s loc' da resultlist)"
  by (subst pN_impl) (simp_all add: wrap_impl loop_impl)

lemma pN_MatchFirst:
  "parseNoCache (MatchFirst es) s loc da cpp = MatchFirst_loop es s loc da None"
proof -
  have "parseNoCache (MatchFirst es) s loc da cpp =
          catch_IndexError (MatchFirst es) s loc (MatchFirst_loop es s loc da None)"
    by (subst pN_impl) (simp_all add: wrap_impl loop_impl)
  then show ?thesis by (simp add: catch_id MatchFirst_loop_no_IndexError)
qed

lemma drop_nth_hd: "drop p s = c # rest \<Longrightarrow> p < length s \<and> s ! p = c"
  by (metis drop_eq_Nil list.distinct(1) not_le nth_via_drop)

lemma drop_more: "drop p s = xs @ ys \<Longrightarrow> drop (p + length xs) s = ys"
  by (metis add.commute append_eq_conv_conj drop_drop)

lemma drop_len: "drop p s = xs \<Longrightarrow> xs \<noteq> [] \<Longrightarrow> p + length xs = length s"
  by (metis drop_eq_Nil length_drop not_le le_add_diff_inverse less_imp_le_nat)

lemma skip_white_stay:
  "drop p s = [] \<or> hd (drop p s) \<notin> set wt \<Longrightarrow> skip_white wt s p = p"
  by (cases "drop p s") (auto simp: skip_white_eq)

lemma skip_white_drop:
  "drop (skip_white wt s p) s = dropWhile (\<lambda>c. c \<in> set wt) (drop p s)"
  by (metis add.commute drop_drop dropWhile_eq_drop skip_white_eq)

lemma setParseAction_sel [simp]:
  "parseImpl (setParseAction fn e) = parseImpl e" "postParse (setParseAction fn e) = postParse e"
  "resultsName (setParseAction fn e) = resultsName e" "parseAction (setParseAction fn e) = Some fn"
  by (simp_all add: setParseAction_def)

lemma named_sel [simp]:
  "parseImpl (named e n) = parseImpl e" "postParse (named e n) = postParse e"
  "resultsName (named e n) = Some n" "parseAction (named e n) = parseAction e"
  by (simp_all add: named_def)

lemma preParse_ge: "loc \<le> preParse e s loc"
  by (simp add: preParse_def skip_white_eq)

lemma catch_loc:
  "mayIndexError e \<or> p < length s \<or> length s \<le> loc \<Longrightarrow> loc \<le> p \<Longrightarrow>
   catch_IndexError e s loc res = catch_IndexError e s p res"
  by (auto simp: catch_IndexError_def split: sum.splits exn.splits)

lemma pN_alt_gen:
  assumes "mayIndexError e \<or> (if cpp \<and> callPreparse e then preParse e s loc else loc) < length s
            \<or> length s \<le> loc"
  shows "parseNoCache e s loc da cpp =
     parseNoCache e s (if cpp \<and> callPreparse e then preParse e s loc else loc) da False"
proof -
  define p where "p = (if cpp \<and> callPreparse e then preParse e s loc else loc)"
  have "loc \<le> p" by (simp add: p_def preParse_ge)
  from catch_loc [OF assms [folded p_def] this]
  show ?thesis unfolding parseNoCache_def p_def [symmetric] by simp
qed

lemma pN_alt:
  "callPreparse e \<Longrightarrow> mayIndexError e \<Longrightarrow>
   parseNoCache e s loc da cpp = parseNoCache e s (if cpp then preParse e s loc else loc) da False"
  using pN_alt_gen [of e cpp s loc da] by simp

lemma pN_pre:
  "callPreparse e \<Longrightarrow> mayIndexError e \<Longrightarrow>
   parseNoCache e s loc da True = parseNoCache e s (preParse e s loc) da False"
  using pN_alt [of e s loc da True] by simp

lemma pN_pre_lt:
  "callPreparse e \<Longrightarrow> preParse e s loc < length s \<Longrightarrow>
   parseNoCache e s loc da True = parseNoCache e s (preParse e s loc) da False"
  using pN_alt_gen [of e True s loc da] by simp

lemma pN_stay:
  "preParse e s loc = loc \<or> \<not> callPreparse e \<Longrightarrow>
   parseNoCache e s loc da True = parseNoCache e s loc da False"
  by (auto simp: parseNoCache_def)

lemma pN_False:
  "parseNoCache e s p da False =
     (case catch_IndexError e s p (parseImpl e s p da) of
        Inl x \<Rightarrow> Inl x
      | Inr (loc', tokens) \<Rightarrow>
          (case parseAction e of
             None \<Rightarrow> Inr (loc', name_results (resultsName e) (postParse e tokens))
           | Some fn \<Rightarrow>
               if da then
                 (case fn (name_results (resultsName e) (postParse e tokens)) of
                    Inl x \<Rightarrow> Inl x
                  | Inr [] \<Rightarrow> Inr (loc', name_results (resultsName e) (postParse e tokens))
                  | Inr (t # ts) \<Rightarrow> Inr (loc', name_results (resultsName e) (t # ts, [])))
               else Inr (loc', name_results (resultsName e) (postParse e tokens))))"
  by (cases "catch_IndexError e s p (parseImpl e s p da)") (auto simp: parseNoCache_def Let_def)

lemma pN_setParseAction:
  assumes a: "parseAction e = None"
  shows "parseNoCache (setParseAction fn e) s loc da cpp =
     (case parseNoCache e s loc da cpp of
        Inl x \<Rightarrow> Inl x
      | Inr (l, r) \<Rightarrow>
          if da then
            (case fn r of Inl x \<Rightarrow> Inl x
             | Inr [] \<Rightarrow> Inr (l, r)
             | Inr (t # ts) \<Rightarrow> Inr (l, name_results (resultsName e) (t # ts, [])))
          else Inr (l, r))"
proof -
  define p where "p = (if cpp \<and> callPreparse e then preParse e s loc else loc)"
  have pw: "(if cpp \<and> callPreparse (setParseAction fn e)
             then preParse (setParseAction fn e) s loc else loc) = p"
    by (simp add: p_def)
  have pe: "(if cpp \<and> callPreparse e then preParse e s loc else loc) = p" by (simp add: p_def)
  show ?thesis unfolding parseNoCache_def pw pe Let_def
    by (cases "catch_IndexError e s loc (parseImpl e s p da)")
       (auto simp: a split: list.splits sum.splits)
qed

lemma pN_setParseAction_False:
  assumes a: "parseAction e = None"
  shows "parseNoCache (setParseAction fn e) s p da False =
     (case parseNoCache e s p da False of
        Inl x \<Rightarrow> Inl x
      | Inr (l, r) \<Rightarrow>
          if da then
            (case fn r of Inl x \<Rightarrow> Inl x
             | Inr [] \<Rightarrow> Inr (l, r)
             | Inr (t # ts) \<Rightarrow> Inr (l, name_results (resultsName e) (t # ts, [])))
          else Inr (l, r))"
  by (rule pN_setParseAction [OF a])

lemma pN_named_plain:
  assumes a: "parseAction e = None" "resultsName e = None"
  shows "parseNoCache (named e n) s loc da cpp =
     (case parseNoCache e s loc da cpp of
        Inl x \<Rightarrow> Inl x
      | Inr (l, r) \<Rightarrow> Inr (l, name_results (Some n) r))"
proof -
  define p where "p = (if cpp \<and> callPreparse e then preParse e s loc else loc)"
  have pw: "(if cpp \<and> callPreparse (named e n) then preParse (named e n) s loc else loc) = p"
    by (simp add: p_def)
  have pe: "(if cpp \<and> callPreparse e then preParse e s loc else loc) = p" by (simp add: p_def)
  show ?thesis unfolding parseNoCache_def pw pe Let_def
    by (cases "catch_IndexError e s loc (parseImpl e s p da)")
       (auto simp: a split: list.splits sum.splits)
qed

lemma pN_named_plain_False:
  assumes a: "parseAction e = None" "resultsName e = None"
  shows "parseNoCache (named e n) s p da False =
     (case parseNoCache e s p da False of
        Inl x \<Rightarrow> Inl x
      | Inr (l, r) \<Rightarrow> Inr (l, name_results (Some n) r))"
  by (rule pN_named_plain [OF a])

lemma tok_sel [simp]:
  "callPreparse (Literal m) = True" "mayIndexError (Literal m) = False"
  "callPreparse (Keyword m) = True" "mayIndexError (Keyword m) = False"
  "callPreparse (Word m) = True" "mayIndexError (Word m) = False"
  "callPreparse restOfLine = True" "mayIndexError restOfLine = False"
  "callPreparse White = True" "mayIndexError White = True"
  "callPreparse (CharsNotIn m) = True" "mayIndexError (CharsNotIn m) = False"
  "callPreparse lineEnd = True" "mayIndexError lineEnd = False"
  "callPreparse stringEnd = True" "mayIndexError stringEnd = False"
  "callPreparse MULTILINE = True" "mayIndexError MULTILINE = False"
  by (simp_all add: Literal_def Keyword_def Word_def restOfLine_def White_def CharsNotIn_def
        lineEnd_def stringEnd_def MULTILINE_def)

lemma tok_plain [simp]:
  "parseAction (CharsNotIn cs) = None" "resultsName (CharsNotIn cs) = None"
  "postParse (CharsNotIn cs) = (\<lambda>r. r)"
  "parseAction restOfLine = None" "resultsName restOfLine = None"
  "postParse restOfLine = (\<lambda>r. r)"
  "parseAction White = None" "resultsName White = None" "postParse White = (\<lambda>r. r)"
  "parseAction lineEnd = None" "resultsName lineEnd = None" "postParse lineEnd = (\<lambda>r. r)"
  "parseAction (Literal m) = None" "resultsName (Literal m) = None"
  "parseAction (Keyword m) = None" "resultsName (Keyword m) = None"
  "parseAction (Word m) = None" "resultsName (Word m) = None"
  "parseAction MULTILINE = None" "resultsName MULTILINE = None"
  "parseAction stringEnd = None" "resultsName stringEnd = None"
  by (simp_all add: CharsNotIn_def restOfLine_def White_def lineEnd_def Literal_def Keyword_def
       Word_def MULTILINE_def stringEnd_def)

lemma tok_post [simp]:
  "postParse (Literal m) = (\<lambda>r. r)" "postParse (Keyword m) = (\<lambda>r. r)"
  "postParse (Word m) = (\<lambda>r. r)" "postParse MULTILINE = (\<lambda>r. r)"
  "postParse stringEnd = (\<lambda>r. r)"
  by (simp_all add: Literal_def Keyword_def Word_def MULTILINE_def stringEnd_def)

lemma impl_Literal:
  "parseImpl (Literal m) s loc da =
     (if length s \<le> loc then Inl IndexError
      else if startswith s m loc then Inr (loc + length m, ([Str m], []))
      else Inl (ParseException loc))"
  by (simp add: Literal_def)

lemma impl_Keyword:
  "parseImpl (Keyword m) s loc da =
     (if length s \<le> loc then Inl IndexError
      else if startswith s m loc \<and>
        (length s \<le> loc + length m \<or> s ! (loc + length m) \<notin> set identChars) \<and>
        (loc = 0 \<or> s ! (loc - 1) \<notin> set identChars)
      then Inr (loc + length m, ([Str m], []))
      else Inl (ParseException loc))"
  by (simp add: Keyword_def)

lemma pN_tok_False:
  "parseAction e = None \<Longrightarrow> resultsName e = None \<Longrightarrow> postParse e = (\<lambda>r. r) \<Longrightarrow>
   parseNoCache e s loc da False = catch_IndexError e s loc (parseImpl e s loc da)"
  by (simp add: plain_element)

(* tokens *)

lemma pN_Literal_ok:
  "drop p s = m @ rest \<Longrightarrow> m \<noteq> [] \<Longrightarrow>
   parseNoCache (Literal m) s p da False = Inr (p + length m, ([Str m], []))"
proof -
  assume d: "drop p s = m @ rest" and m: "m \<noteq> []"
  then have "p < length s" by (cases m) (auto dest: drop_nth_hd)
  then show ?thesis using d by (simp add: pN_tok_False impl_Literal startswith_def)
qed

lemma pN_Literal_fail:
  "drop p s = c # rest \<Longrightarrow> m \<noteq> [] \<Longrightarrow> hd m \<noteq> c \<Longrightarrow>
   parseNoCache (Literal m) s p da False = Inl (ParseException p)"
proof -
  assume d: "drop p s = c # rest" and m: "m \<noteq> []" "hd m \<noteq> c"
  then have "p < length s" by (auto dest: drop_nth_hd)
  moreover have "take (length m) (c # rest) \<noteq> m" using m by (cases m) auto
  ultimately show ?thesis using d by (simp add: pN_tok_False impl_Literal startswith_def)
qed

lemma pN_Literal_end:
  "drop p s = [] \<Longrightarrow> parseNoCache (Literal m) s p da False = Inl (ParseException (length s))"
  by (simp add: pN_tok_False impl_Literal)

lemma preParse_CharsNotIn [simp]: "preParse (CharsNotIn cs) s p = p"
  by (simp add: preParse_def CharsNotIn_def)

lemma preParse_restOfLine [simp]: "preParse restOfLine s p = p"
  by (simp add: preParse_def restOfLine_def)

lemma preParse_White [simp]: "preParse White s p = p"
  by (cases "drop p s") (simp_all add: preParse_def White_def skip_white_eq)

lemma impl_CharsNotIn:
  "parseImpl (CharsNotIn cs) s p da =
     (if length s \<le> p then Inl IndexError
      else let m = takeWhile (\<lambda>c. c \<notin> set cs) (drop p s)
           in if m = [] then Inl (ParseException p) else Inr (p + length m, ([Str m], [])))"
  by (simp add: CharsNotIn_def)

lemma preParse_Literal [simp]: "preParse (Literal m) s p = skip_white DEFAULT_WHITE_CHARS s p"
  by (simp add: Literal_def preParse_def)

lemma preParse_Keyword [simp]: "preParse (Keyword m) s p = skip_white DEFAULT_WHITE_CHARS s p"
  by (simp add: Keyword_def preParse_def)

lemma preParse_Word [simp]: "preParse (Word m) s p = skip_white DEFAULT_WHITE_CHARS s p"
  by (simp add: Word_def preParse_def)

lemma preParse_MatchFirst [simp]: "preParse (MatchFirst es) s p = skip_white DEFAULT_WHITE_CHARS s p"
  by (simp add: MatchFirst_def preParse_def)

lemma preParse_MULTILINE [simp]: "preParse MULTILINE s p = skip_white DEFAULT_WHITE_CHARS s p"
  by (simp add: MULTILINE_def preParse_def)

lemma preParse_stringEnd [simp]: "preParse stringEnd s p = skip_white DEFAULT_WHITE_CHARS s p"
  by (simp add: stringEnd_def preParse_def)

lemma preParse_EOL [simp]: "preParse EOL s p = skip_white [CHR '' '', CHR 0x09, CHR 0x0D] s p"
  by (simp add: EOL_def preParse_def lineEnd_def Token_def)

lemma pN_CharsNotIn_ok:
  "drop p s = c @ rest \<Longrightarrow> c \<noteq> [] \<Longrightarrow> set c \<inter> set cs = {} \<Longrightarrow>
   rest = [] \<or> hd rest \<in> set cs \<Longrightarrow>
   parseNoCache (CharsNotIn cs) s p da cpp = Inr (p + length c, ([Str c], []))"
proof -
  assume d: "drop p s = c @ rest" and c: "c \<noteq> []" "set c \<inter> set cs = {}"
    and r: "rest = [] \<or> hd rest \<in> set cs"
  have p: "p < length s" using d c by (cases c) (auto dest: drop_nth_hd)
  have "takeWhile (\<lambda>x. x \<notin> set cs) (c @ rest) = c"
    using c r by (cases rest) (auto simp: takeWhile_append1 takeWhile_append2 disjoint_iff)
  then show ?thesis using p d c
    by (simp add: plain_element impl_CharsNotIn)
qed

lemma pN_CharsNotIn_fail:
  "drop p s = [] \<or> hd (drop p s) \<in> set cs \<Longrightarrow>
   \<exists>l. parseNoCache (CharsNotIn cs) s p da cpp = Inl (ParseException l)"
  by (cases "drop p s") (auto simp: plain_element impl_CharsNotIn)

lemma pN_CharsNotIn_bar:
  "drop p s = c # rest \<Longrightarrow> c \<in> set cs \<Longrightarrow>
   parseNoCache (CharsNotIn cs) s p da cpp = Inl (ParseException p)"
proof -
  assume d: "drop p s = c # rest" and c: "c \<in> set cs"
  then have "p < length s" by (auto dest: drop_nth_hd)
  then show ?thesis using d c by (simp add: plain_element impl_CharsNotIn)
qed

lemma grammar_sel [simp]:
  "callPreparse EOL" "\<not> mayIndexError EOL"
  "callPreparse TAG" "mayIndexError TAG"
  "callPreparse TABLE_ROW" "mayIndexError TABLE_ROW"
  "callPreparse TABLE" "mayIndexError TABLE"
  "callPreparse STATEMENT" "mayIndexError STATEMENT"
  "callPreparse BACKGROUND_DEFN" "mayIndexError BACKGROUND_DEFN"
  "callPreparse BACKGROUND" "mayIndexError BACKGROUND"
  "callPreparse SCENARIO_DEFN" "mayIndexError SCENARIO_DEFN"
  "callPreparse SCENARIO" "mayIndexError SCENARIO"
  "callPreparse FEATURE_DEFN" "mayIndexError FEATURE_DEFN"
  "callPreparse FEATURE" "mayIndexError FEATURE"
  by (simp_all add: EOL_def TAG_def TABLE_ROW_def TABLE_def STATEMENT_def BACKGROUND_DEFN_def
        BACKGROUND_def SCENARIO_DEFN_def SCENARIO_def FEATURE_DEFN_def FEATURE_def)

lemma pN_EOL_ok:
  "drop p s = CHR 0x0A # rest \<Longrightarrow> parseNoCache EOL s p da cpp = Inr (p + 1, ([], []))"
proof -
  assume d: "drop p s = CHR 0x0A # rest"
  then have p: "p < length s" "s ! p = CHR 0x0A" by (auto dest: drop_nth_hd)
  have sk: "skip_white [CHR '' '', CHR 0x09, CHR 0x0D] s p = p"
    using d by (simp add: skip_white_eq)
  have "preParse lineEnd s p = p" using sk by (simp add: preParse_def lineEnd_def Token_def)
  moreover have "parseNoCache lineEnd s p da False = Inr (p + 1, ([Str [CHR 0x0A]], []))"
    using p by (simp add: pN_tok_False lineEnd_def)
  ultimately show ?thesis by (simp add: EOL_def pN_Suppress)
qed

lemma add_results_simps [simp]:
  "add_results a ([], []) = a" "add_results ([], []) b = b"
  "add_results (x, d) (y, d') = (x @ y, d @ d')"
  by (simp_all add: add_results_def)

lemma bar_not_white [simp]: "CHR ''|'' \<notin> set DEFAULT_WHITE_CHARS"
  by (simp add: DEFAULT_WHITE_CHARS_def)

lemma cell_ok:
  assumes d: "drop p s = c @ ''|'' @ rest" and v: "valid_cell c"
  shows "parseNoCache CELL s p da cpp = Inr (p + length c + 1, ([Str c], []))"
proof -
  have c: "c \<noteq> []" "set c \<inter> set [CHR ''|'', CHR 0x0A] = {}"
    using v by (auto simp: valid_cell_def)
  have 1: "parseNoCache (CharsNotIn [CHR ''|'', CHR 0x0A]) s p da False
             = Inr (p + length c, ([Str c], []))"
    using d c by (intro pN_CharsNotIn_ok [where rest = "''|'' @ rest"]) auto
  have d2: "drop (p + length c) s = ''|'' @ rest" using drop_more [OF d] .
  have sk: "skip_white DEFAULT_WHITE_CHARS s (p + length c) = p + length c"
    using d2 by (intro skip_white_stay) simp
  have 2: "parseNoCache (Literal ''|'') s (p + length c) da False
             = Inr (p + length c + 1, ([Str ''|''], []))"
    using pN_Literal_ok [OF d2] by simp
  show ?thesis
    by (simp add: pN_And 1 pN_Suppress sk 2)
qed

lemma cell_fail:
  assumes "drop p s = [] \<or> hd (drop p s) = CHR ''|'' \<or> hd (drop p s) = CHR 0x0A"
  shows "\<exists>l. parseNoCache CELL s p da cpp = Inl (ParseException l)"
proof -
  have "drop p s = [] \<or> hd (drop p s) \<in> set [CHR ''|'', CHR 0x0A]" using assms by auto
  from pN_CharsNotIn_fail [OF this, of da False]
  obtain l where "parseNoCache (CharsNotIn [CHR ''|'', CHR 0x0A]) s p da False = Inl (ParseException l)"
    by blast
  then show ?thesis by (simp add: pN_And)
qed

lemma cells_loop:
  assumes "drop p s = concat (map (\<lambda>c. c @ ''|'') cells) @ rest"
    and "list_all valid_cell cells"
    and "rest = [] \<or> hd rest = CHR ''|'' \<or> hd rest = CHR 0x0A"
  shows "many_loop CELL s p da acc =
           Inr (p + length (concat (map (\<lambda>c. c @ ''|'') cells)),
                add_results acc (map Str cells, []))"
  using assms
proof (induction cells arbitrary: p acc)
  case Nil
  then have "drop p s = [] \<or> hd (drop p s) = CHR ''|'' \<or> hd (drop p s) = CHR 0x0A" by auto
  from cell_fail [OF this, of da True] obtain l
    where "parseNoCache CELL s p da True = Inl (ParseException l)" by blast
  then show ?case by (subst many_loop.simps) simp
next
  case (Cons c cells)
  have d: "drop p s = c @ ''|'' @ (concat (map (\<lambda>c. c @ ''|'') cells) @ rest)"
    using Cons.prems(1) by simp
  have v: "valid_cell c" "list_all valid_cell cells" using Cons.prems(2) by auto
  have 1: "parseNoCache CELL s p da True = Inr (p + length c + 1, ([Str c], []))"
    by (rule cell_ok [OF d v(1)])
  have d2: "drop (p + length c + 1) s = concat (map (\<lambda>c. c @ ''|'') cells) @ rest"
    using drop_more [of p s "c @ ''|''"] d by simp
  have len: "p + length c + 1 \<le> length s"
  proof -
    have "length (drop p s) \<ge> length c + 1" using d by simp
    then show ?thesis by simp
  qed
  obtain a b where acc: "acc = (a, b)" by (cases acc)
  have ih: "many_loop CELL s (p + length c + 1) da (add_results acc ([Str c], [])) =
     Inr (p + length c + 1 + length (concat (map (\<lambda>c. c @ ''|'') cells)),
          add_results (add_results acc ([Str c], [])) (map Str cells, []))"
    by (rule Cons.IH [OF d2 v(2) Cons.prems(3)])
  show ?case
    by (subst many_loop.simps) (use 1 len ih acc in \<open>simp add: add.assoc\<close>)
qed

lemma strip_tokens_Str: "strip_tokens (map Str cells) = Inr (map (\<lambda>c. Str (strip c)) cells)"
  by (induction cells) simp_all

lemma skip_white_blank:
  assumes "drop p s = ws @ rest" "blank ws" "rest = [] \<or> hd rest \<notin> set DEFAULT_WHITE_CHARS"
  shows "skip_white DEFAULT_WHITE_CHARS s p = p + length ws"
proof -
  have "takeWhile (\<lambda>c. c \<in> set DEFAULT_WHITE_CHARS) (ws @ rest) = ws"
    using assms(2,3) by (cases rest) (auto simp: blank_def list_all_iff)
  then show ?thesis using assms(1) by (simp add: skip_white_eq)
qed

lemma preParse_TABLE_ROW [simp]:
  "preParse TABLE_ROW s p = skip_white DEFAULT_WHITE_CHARS s p"
  by (simp add: TABLE_ROW_def)

lemma row_ok:
  assumes d: "drop p s = render_row cells @ rest" and v: "valid_row cells"
  shows "parseNoCache TABLE_ROW s p True False =
           Inr (p + length (render_row cells), (map (\<lambda>c. Str (strip c)) cells, []))"
proof -
  obtain c cs where cells: "cells = c # cs" using v by (cases cells) (auto simp: valid_row_def)
  have vc: "valid_cell c" "list_all valid_cell cs" using v cells by (auto simp: valid_row_def)
  let ?body = "concat (map (\<lambda>c. c @ ''|'') cs)"
  define q1 where "q1 = p + 1"
  define q2 where "q2 = q1 + length c + 1"
  define q3 where "q3 = q2 + length ?body"
  define q4 where "q4 = q3 + 1"
  have d0: "drop p s = ''|'' @ (c @ ''|'' @ ?body @ CHR 0x0A # rest)"
    using d cells by (simp add: render_row_def)
  have 1: "parseNoCache (Literal ''|'') s p True False = Inr (q1, ([Str ''|''], []))"
    using pN_Literal_ok [OF d0] by (simp add: q1_def)
  have d1: "drop q1 s = c @ ''|'' @ (?body @ CHR 0x0A # rest)"
    using drop_more [OF d0] by (simp add: q1_def)
  have 2: "parseNoCache CELL s q1 True False = Inr (q2, ([Str c], []))"
    using cell_ok [OF d1 vc(1)] by (simp add: q2_def)
  have d2: "drop q2 s = ?body @ (CHR 0x0A # rest)"
    using drop_more [of q1 s "c @ ''|''"] d1 by (simp add: q2_def)
  have 3: "many_loop CELL s q2 True ([Str c], []) = Inr (q3, (Str c # map Str cs, []))"
    using cells_loop [OF d2 vc(2), of True "([Str c], [])"] by (simp add: q3_def)
  have d3: "drop q3 s = CHR 0x0A # rest"
    using drop_more [OF d2] by (simp add: q3_def)
  have 4: "parseNoCache EOL s q3 True True = Inr (q4, ([], []))"
    using pN_EOL_ok [OF d3] by (simp add: q4_def)
  have len: "q4 = p + length (render_row cells)"
    by (simp add: render_row_def cells q1_def q2_def q3_def q4_def)
  have O: "parseNoCache (OneOrMore CELL) s q1 True True = Inr (q3, (Str c # map Str cs, []))"
    by (subst pN_OneOrMore) (simp add: 2 3)
  have S: "parseNoCache (Suppress (Literal ''|'')) s p True False = Inr (q1, ([], []))"
    by (simp add: pN_Suppress 1)
  have A: "parseNoCache (And [Suppress (Literal ''|''), OneOrMore CELL, EOL]) s p True False
             = Inr (q4, (map Str cells, []))"
    by (subst pN_And) (simp add: S O 4 cells)
  show ?thesis
    unfolding TABLE_ROW_def
    by (simp add: pN_setParseAction A strip_tokens_Str cells len)
qed

lemma grow_ok:
  assumes d: "drop p s = ind @ render_row cells @ rest" and b: "blank ind"
    and v: "valid_row cells"
  shows "parseNoCache (Group TABLE_ROW) s p True True =
           Inr (p + length ind + length (render_row cells),
                ([ParseResults (map (\<lambda>c. Str (strip c)) cells) []], []))"
proof -
  have "hd (render_row cells @ rest) = CHR ''|''" by (simp add: render_row_def)
  then have sk: "skip_white DEFAULT_WHITE_CHARS s p = p + length ind"
    using skip_white_blank [OF d b] by simp
  have d1: "drop (p + length ind) s = render_row cells @ rest" using drop_more [OF d] .
  show ?thesis
    by (subst pN_alt) (simp_all add: sk pN_Group row_ok [OF d1 v] add.assoc)
qed

lemma grow_fail:
  assumes "next_char (drop p s) \<noteq> Some CHR ''|''"
  shows "\<exists>l. parseNoCache (Group TABLE_ROW) s p da True = Inl (ParseException l)"
proof -
  let ?q = "skip_white DEFAULT_WHITE_CHARS s p"
  have dq: "drop ?q s = dropWhile (\<lambda>c. c \<in> set DEFAULT_WHITE_CHARS) (drop p s)"
    by (rule skip_white_drop)
  have "\<exists>l. parseNoCache (Literal ''|'') s ?q da False = Inl (ParseException l)"
  proof (cases "drop ?q s")
    case Nil
    then show ?thesis by (simp add: pN_Literal_end)
  next
    case (Cons c rest)
    then have "c \<noteq> CHR ''|''" using assms dq by (auto simp: next_char_def)
    then show ?thesis using pN_Literal_fail [OF Cons, of "''|''" da] by simp
  qed
  then obtain l where "parseNoCache (Literal ''|'') s ?q da False = Inl (ParseException l)" ..
  then show ?thesis
    by (subst pN_alt) (simp_all add: pN_Group pN_setParseAction pN_And pN_Suppress
          TABLE_ROW_def [unfolded setParseAction_def, folded setParseAction_def])
qed

lemma rows_loop:
  assumes "drop p s = render_table ind rows @ rest" "blank ind" "list_all valid_row rows"
    and "next_char rest \<noteq> Some CHR ''|''"
  shows "many_loop (Group TABLE_ROW) s p True acc =
           Inr (p + length (render_table ind rows), add_results acc (map row_tokens rows, []))"
  using assms(1,3)
proof (induction rows arbitrary: p acc)
  case Nil
  then have "next_char (drop p s) \<noteq> Some CHR ''|''" using assms(4) by (simp add: render_table_def)
  from grow_fail [OF this, of True] obtain l
    where "parseNoCache (Group TABLE_ROW) s p True True = Inl (ParseException l)" by blast
  then show ?case by (subst many_loop.simps) (simp add: render_table_def)
next
  case (Cons r rows)
  define q where "q = p + length ind + length (render_row r)"
  have d: "drop p s = ind @ render_row r @ (render_table ind rows @ rest)"
    using Cons.prems(1) by (simp add: render_table_def)
  have v: "valid_row r" "list_all valid_row rows" using Cons.prems(2) by auto
  have 1: "parseNoCache (Group TABLE_ROW) s p True True = Inr (q, ([row_tokens r], []))"
    using grow_ok [OF d assms(2) v(1)] by (simp add: q_def)
  have d2: "drop q s = render_table ind rows @ rest"
    using drop_more [of p s "ind @ render_row r"] d by (simp add: q_def add.assoc)
  have "length (drop p s) \<ge> length ind + length (render_row r)" "0 < length (render_row r)"
    using d by (simp_all add: render_row_def)
  then have len: "q \<le> length s" unfolding q_def length_drop by arith
  have pos: "p < q" by (simp add: q_def render_row_def)
  obtain a b where acc: "acc = (a, b)" by (cases acc)
  have ih: "many_loop (Group TABLE_ROW) s q True (add_results acc ([row_tokens r], [])) =
     Inr (q + length (render_table ind rows),
          add_results (add_results acc ([row_tokens r], [])) (map row_tokens rows, []))"
    by (rule Cons.IH [OF d2 v(2)])
  have "q + length (render_table ind rows) = p + length (render_table ind (r # rows))"
    by (simp add: q_def render_table_def)
  then show ?case
    by (subst many_loop.simps) (use 1 len pos ih acc in simp)
qed

lemma skip_white_idem: "skip_white wt s (skip_white wt s p) = skip_white wt s p"
proof -
  have "drop (skip_white wt s p) s = [] \<or> hd (drop (skip_white wt s p) s) \<notin> set wt"
    unfolding skip_white_drop
    by (metis (mono_tags, lifting) dropWhile_eq_Nil_conv hd_dropWhile)
  then show ?thesis by (rule skip_white_stay)
qed

lemma preParse_idem: "preParse e s (preParse e s q) = preParse e s q"
  by (simp add: preParse_def skip_white_idem)

lemma pN_skipped:
  "callPreparse e \<Longrightarrow> mayIndexError e \<Longrightarrow>
   parseNoCache e s (preParse e s q) da True = parseNoCache e s q da True"
  by (simp add: pN_pre preParse_def skip_white_idem)


lemma TABLE_ok:
  assumes d: "drop q s = ws0 @ render_row r @ render_table ind rs @ rest"
    and b: "blank ws0" "blank ind" and v: "valid_row r" "list_all valid_row rs"
    and n: "next_char rest \<noteq> Some CHR ''|''"
  shows "parseNoCache TABLE s q True True =
           Inr (q + length ws0 + length (render_row r) + length (render_table ind rs),
                ([ParseResults (map row_tokens (r # rs)) []],
                 [(''table'', ParseResults (map row_tokens (r # rs)) [])]))"
proof -
  define q1 where "q1 = q + length ws0 + length (render_row r)"
  have d': "drop q s = ws0 @ render_row r @ (render_table ind rs @ rest)" using d by simp
  have 1: "parseNoCache (Group TABLE_ROW) s q True True = Inr (q1, ([row_tokens r], []))"
    using grow_ok [OF d' b(1) v(1)] by (simp add: q1_def)
  have a1: "parseNoCache (Group TABLE_ROW) s (skip_white DEFAULT_WHITE_CHARS s q) True False
              = Inr (q1, ([row_tokens r], []))"
    using 1 by (simp add: pN_pre)
  have d2: "drop q1 s = render_table ind rs @ rest"
    using drop_more [of q s "ws0 @ render_row r"] d by (simp add: q1_def add.assoc)
  have 2: "many_loop (Group TABLE_ROW) s q1 True ([row_tokens r], []) =
             Inr (q1 + length (render_table ind rs), (map row_tokens (r # rs), []))"
    using rows_loop [OF d2 b(2) v(2) n, of "([row_tokens r], [])"] by simp
  have O: "parseNoCache (OneOrMore (Group TABLE_ROW)) s q True True =
             Inr (q1 + length (render_table ind rs), (map row_tokens (r # rs), []))"
    by (subst pN_OneOrMore) (simp add: a1 2)
  have G: "parseNoCache (Group (OneOrMore (Group TABLE_ROW))) s q True True =
             Inr (q1 + length (render_table ind rs), ([ParseResults (map row_tokens (r # rs)) []], []))"
    using O by (simp add: pN_Group pN_pre)
  show ?thesis
    unfolding TABLE_def by (simp add: pN_named_plain G q1_def)
qed


lemma pN_Keyword_ok:
  assumes d: "drop p s = m @ rest" and m: "m \<noteq> []"
    and r: "rest = [] \<or> hd rest \<notin> set identChars" and w: "word_start s p"
  shows "parseNoCache (Keyword m) s p da False = Inr (p + length m, ([Str m], []))"
proof -
  have p: "p < length s" using d m by (cases m) (auto dest: drop_nth_hd)
  have st: "startswith s m p" using d by (simp add: startswith_def)
  have nx: "length s \<le> p + length m \<or> s ! (p + length m) \<notin> set identChars"
  proof (cases rest)
    case Nil
    then have "length (drop p s) = length m" using d by simp
    then have "length s \<le> p + length m" unfolding length_drop by arith
    then show ?thesis by simp
  next
    case (Cons c cs)
    have "drop (p + length m) s = c # cs" using drop_more [OF d] Cons by simp
    then have "s ! (p + length m) = c" by (auto dest: drop_nth_hd)
    then show ?thesis using r Cons by simp
  qed
  show ?thesis using p st nx w
    by (simp add: pN_tok_False impl_Keyword word_start_def)
qed

lemma pN_Keyword_fail:
  "drop p s = c # rest \<Longrightarrow> m \<noteq> [] \<Longrightarrow> hd m \<noteq> c \<Longrightarrow>
   parseNoCache (Keyword m) s p da False = Inl (ParseException p)"
proof -
  assume d: "drop p s = c # rest" and m: "m \<noteq> []" "hd m \<noteq> c"
  then have "p < length s" by (auto dest: drop_nth_hd)
  moreover have "take (length m) (c # rest) \<noteq> m" using m by (cases m) auto
  ultimately show ?thesis using d by (simp add: pN_tok_False impl_Keyword startswith_def)
qed

lemma pN_Keyword_end:
  "drop p s = [] \<Longrightarrow> parseNoCache (Keyword m) s p da False = Inl (ParseException (length s))"
  by (simp add: pN_tok_False impl_Keyword)

lemma impl_restOfLine:
  "parseImpl restOfLine s p da =
     (let pos = min p (length s); m = takeWhile (\<lambda>c. c \<noteq> CHR 0x0A) (drop pos s)
      in Inr (pos + length m, ([Str m], [])))"
  by (simp add: restOfLine_def)

lemma pN_restOfLine:
  assumes d: "drop q s = text @ rest" and t: "one_line text"
    and r: "rest = [] \<or> hd rest = CHR 0x0A" and q: "q \<le> length s"
  shows "parseNoCache restOfLine s q da cpp = Inr (q + length text, ([Str text], []))"
proof -
  have "takeWhile (\<lambda>c. c \<noteq> CHR 0x0A) (text @ rest) = text"
  proof (cases rest)
    case Nil
    then show ?thesis using t by (auto simp: one_line_def takeWhile_eq_all_conv)
  next
    case (Cons c cs)
    then have "c = CHR 0x0A" using r by simp
    then show ?thesis using t Cons by (auto simp: one_line_def takeWhile_tail)
  qed
  moreover have "min q (length s) = q" using q by simp
  ultimately show ?thesis using d
    by (simp add: plain_element impl_restOfLine Let_def)
qed



lemma impl_MULTILINE:
  "parseImpl MULTILINE s p da =
    (if length s \<le> p then Inl IndexError
     else if startswith s QQQ p then
       (case quoted_body s (p + 3) of
          None \<Rightarrow> Inl (ParseException p)
        | Some e \<Rightarrow> Inr (e, ([Str (take (e - 3 - (p + 3)) (drop (p + 3) s))], [])))
     else Inl (ParseException p))"
  by (simp add: MULTILINE_def)


lemma MULTILINE_fail:
  assumes "drop p s = [] \<or> hd (drop p s) \<noteq> quote"
  shows "\<exists>l. parseNoCache MULTILINE s p da False = Inl (ParseException l)"
proof (cases "drop p s")
  case Nil
  then show ?thesis by (simp add: pN_tok_False impl_MULTILINE)
next
  case (Cons x xs)
  then have "x \<noteq> quote" using assms by simp
  then have "\<not> startswith s QQQ p" using Cons by (simp add: startswith_def)
  then show ?thesis using Cons by (auto simp: pN_tok_False impl_MULTILINE dest: drop_nth_hd)
qed

lemma KW_ok:
  assumes k: "kw \<in> set step_keywords" and d: "drop p s = kw @ rest"
    and r: "rest = [] \<or> hd rest \<notin> set identChars" and w: "word_start s p"
  shows "parseNoCache KW s p da False = Inr (p + length kw, ([Str kw], []))"
proof -
  have ne: "kw \<noteq> []" using k by (auto simp: step_keywords_def)
  have ok: "parseNoCache (Keyword kw) s p da False = Inr (p + length kw, ([Str kw], []))"
    by (rule pN_Keyword_ok [OF d ne r w])
  have sk: "skip_white DEFAULT_WHITE_CHARS s p = p"
    using d k by (intro skip_white_stay) (auto simp: step_keywords_def DEFAULT_WHITE_CHARS_def)
  have okT: "\<And>cpp. parseNoCache (Keyword kw) s p da cpp = Inr (p + length kw, ([Str kw], []))"
    by (case_tac cpp) (simp_all add: pN_stay sk ok)
  have fl: "\<And>m cpp. m \<noteq> [] \<Longrightarrow> hd m \<noteq> hd kw \<Longrightarrow>
      parseNoCache (Keyword m) s p da cpp = Inl (ParseException p)"
  proof -
    fix m :: string and cpp assume m: "m \<noteq> []" "hd m \<noteq> hd kw"
    obtain c cs where kc: "kw = c # cs" using ne by (cases kw) auto
    have "drop p s = c # (cs @ rest)" using d kc by simp
    from pN_Keyword_fail [OF this m(1), of da] m(2) kc
    have "parseNoCache (Keyword m) s p da False = Inl (ParseException p)" by simp
    then show "parseNoCache (Keyword m) s p da cpp = Inl (ParseException p)"
      by (cases cpp) (simp_all add: pN_stay sk)
  qed
  consider "kw = ''Given''" | "kw = ''When''" | "kw = ''Then''" | "kw = ''And''"
    using k by (auto simp: step_keywords_def)
  then show ?thesis
  proof cases
    case 1
    then show ?thesis using okT by (simp add: pN_MatchFirst)
  next
    case 2
    then show ?thesis using okT fl [of "''Given''"] by (simp add: pN_MatchFirst)
  next
    case 3
    then show ?thesis using okT fl [of "''Given''"] fl [of "''When''"] by (simp add: pN_MatchFirst)
  next
    case 4
    then show ?thesis using okT fl [of "''Given''"] fl [of "''When''"] fl [of "''Then''"]
      by (simp add: pN_MatchFirst)
  qed
qed

lemma preParse_TABLE [simp]: "preParse TABLE s p = skip_white DEFAULT_WHITE_CHARS s p"
  by (simp add: TABLE_def)

lemma TABLE_fail:
  assumes "next_char (drop p s) \<noteq> Some CHR ''|''"
  shows "\<exists>l. parseNoCache TABLE s p da True = Inl (ParseException l)"
proof -
  from grow_fail [OF assms, of da] obtain l
    where "parseNoCache (Group TABLE_ROW) s p da True = Inl (ParseException l)" by blast
  then have "parseNoCache (Group TABLE_ROW) s (skip_white DEFAULT_WHITE_CHARS s p) da False
                = Inl (ParseException l)" by (simp add: pN_pre)
  then show ?thesis
    unfolding TABLE_def
    by (simp add: pN_named_plain pN_Group pN_OneOrMore)
qed

lemma next_char_dropWhile [simp]:
  "next_char (dropWhile (\<lambda>c. c \<in> set DEFAULT_WHITE_CHARS) xs) = next_char xs"
  by (simp add: next_char_def)

lemma next_char_skip [simp]:
  "next_char (drop (skip_white DEFAULT_WHITE_CHARS s q) s) = next_char (drop q s)"
  by (simp add: skip_white_drop)



lemma quote_not_white [simp]: "quote \<notin> set DEFAULT_WHITE_CHARS"
  by (simp add: DEFAULT_WHITE_CHARS_def quote_def)


lemma MULTILINE_fail_cpp:
  assumes "next_char (drop q s) \<noteq> Some quote"
  shows "(\<exists>l. parseNoCache MULTILINE s q da True = Inl (ParseException l)) \<or>
         parseNoCache MULTILINE s q da True = Inl IndexError"
proof -
  define p where "p = skip_white DEFAULT_WHITE_CHARS s q"
  have dd: "drop p s = [] \<or> hd (drop p s) \<noteq> quote"
  proof (cases "drop p s")
    case Nil
    then show ?thesis by simp
  next
    case (Cons x xs)
    then have "dropWhile (\<lambda>c. c \<in> set DEFAULT_WHITE_CHARS) (drop q s) = x # xs"
      by (simp add: p_def skip_white_drop)
    then have "next_char (drop q s) = Some x" by (simp add: next_char_def)
    then show ?thesis using assms Cons by simp
  qed
  show ?thesis
  proof (cases "p < length s")
    case True
    then have "parseNoCache MULTILINE s q da True = parseNoCache MULTILINE s p da False"
      by (simp add: pN_pre_lt p_def)
    then show ?thesis using MULTILINE_fail [OF dd, of da] by simp
  next
    case False
    then have "parseImpl MULTILINE s p da = Inl IndexError" by (simp add: impl_MULTILINE)
    then have "parseNoCache MULTILINE s q da True = catch_IndexError MULTILINE s q (Inl IndexError)"
      by (simp add: plain_element p_def)
    then show ?thesis by (simp add: catch_IndexError_def)
  qed
qed


lemma PAY_none:
  assumes n: "next_char (drop q s) \<noteq> Some CHR ''|''" "next_char (drop q s) \<noteq> Some quote"
  shows "parseNoCache PAY s q da cpp = Inr (q, ([], []))"
proof -
  from TABLE_fail [OF n(1), of da] obtain l
    where t: "parseNoCache TABLE s q da True = Inl (ParseException l)" by blast
  from MULTILINE_fail_cpp [OF n(2), of da]
  have "\<exists>l'. MatchFirst_loop [TABLE, MULTILINE] s q da None = Inl (ParseException l')"
    using t by auto
  then show ?thesis
    by (subst pN_Optional) (auto simp: pN_MatchFirst Let_def)
qed



lemma preParse_STATEMENT [simp]: "preParse STATEMENT s p = skip_white DEFAULT_WHITE_CHARS s p"
  by (simp add: STATEMENT_def)









section \<open>Table fidelity\<close>







section \<open>Multiline fidelity\<close>




section \<open>Empty cells\<close>

lemma pN_EOL_fail:
  assumes "drop q s = c # t" "c \<noteq> CHR 0x0A" "c \<notin> set [CHR '' '', CHR 0x09, CHR 0x0D]"
  shows "parseNoCache EOL s q da cpp = Inl (ParseException q)"
proof -
  have q: "q < length s" "s ! q = c" using assms(1) by (auto dest: drop_nth_hd)
  have sk: "skip_white [CHR '' '', CHR 0x09, CHR 0x0D] s q = q"
    using assms by (intro skip_white_stay) simp
  have "preParse lineEnd s q = q" using sk by (simp add: preParse_def lineEnd_def Token_def)
  moreover have "parseNoCache lineEnd s q da False = Inl (ParseException q)"
    using q assms(2) by (simp add: parseNoCache_def lineEnd_def Token_def)
  ultimately show ?thesis by (simp add: EOL_def pN_Suppress)
qed

lemma split_at_bar:
  assumes "u \<noteq> []" "last u = CHR ''|''" "hd u \<noteq> CHR ''|''" "one_line u"
  shows "\<exists>c u2. u = c @ ''|'' @ u2 \<and> valid_cell c \<and> (u2 = [] \<or> last u2 = CHR ''|'')
            \<and> one_line u2 \<and> length u2 < length u"
proof -
  define c where "c = takeWhile (\<lambda>x. x \<noteq> CHR ''|'') u"
  define r where "r = dropWhile (\<lambda>x. x \<noteq> CHR ''|'') u"
  have u: "u = c @ r" by (simp add: c_def r_def)
  have "CHR ''|'' \<in> set u" using assms(1,2) last_in_set by fastforce
  then have rne: "r \<noteq> []" by (auto simp: r_def dropWhile_eq_Nil_conv)
  then have "hd r = CHR ''|''" using hd_dropWhile [of "\<lambda>x. x \<noteq> CHR ''|''" u] by (simp add: r_def)
  then obtain u2 where r: "r = CHR ''|'' # u2" using rne by (cases r) auto
  have cne: "c \<noteq> []" using assms(1,3) by (cases u) (auto simp: c_def)
  have cb: "CHR ''|'' \<notin> set c" unfolding c_def by (auto dest: set_takeWhileD)
  have cn: "CHR 0x0A \<notin> set c" using assms(4) u by (auto simp: one_line_def)
  have l: "u2 = [] \<or> last u2 = CHR ''|''" using assms(2) u r by (cases u2) auto
  have o: "one_line u2" using assms(4) u r by (auto simp: one_line_def)
  have "u = c @ ''|'' @ u2 \<and> valid_cell c \<and> (u2 = [] \<or> last u2 = CHR ''|'')
            \<and> one_line u2 \<and> length u2 < length u"
    using u r cne cb cn l o by (simp add: valid_cell_def)
  then show ?thesis by blast
qed

lemma cells_stop:
  assumes "drop q s = u @ ''|'' @ rest" "one_line u" "u = [] \<or> last u = CHR ''|''"
  shows "\<exists>q' toks t. many_loop CELL s q da acc = Inr (q', toks) \<and> drop q' s = CHR ''|'' # t"
  using assms
proof (induction "length u" arbitrary: u q acc rule: less_induct)
  case less
  show ?case
  proof (cases "u = [] \<or> hd u = CHR ''|''")
    case True
    then have h: "hd (drop q s) = CHR ''|''" using less.prems(1) by (cases u) auto
    then have "drop q s = [] \<or> hd (drop q s) = CHR ''|'' \<or> hd (drop q s) = CHR 0x0A" by simp
    from cell_fail [OF this, of da True] obtain l
      where f: "parseNoCache CELL s q da True = Inl (ParseException l)" by blast
    have "drop q s \<noteq> []" using less.prems(1) by simp
    then obtain t where "drop q s = CHR ''|'' # t" using h by (cases "drop q s") auto
    then show ?thesis using f by (subst many_loop.simps) simp
  next
    case False
    then have "u \<noteq> []" "last u = CHR ''|''" "hd u \<noteq> CHR ''|''" using less.prems(3) by auto
    from split_at_bar [OF this less.prems(2)] obtain c u2
      where u: "u = c @ ''|'' @ u2" and v: "valid_cell c"
        and u2: "u2 = [] \<or> last u2 = CHR ''|''" "one_line u2" "length u2 < length u" by blast
    define q2 where "q2 = q + length c + 1"
    have d: "drop q s = c @ ''|'' @ (u2 @ ''|'' @ rest)" using less.prems(1) u by simp
    have 1: "parseNoCache CELL s q da True = Inr (q2, ([Str c], []))"
      using cell_ok [OF d v] by (simp add: q2_def)
    have d2: "drop q2 s = u2 @ ''|'' @ rest"
      using drop_more [of q s "c @ ''|''"] d by (simp add: q2_def)
    have "length (drop q s) \<ge> length c + 1" using d by simp
    then have len: "q2 \<le> length s" unfolding q2_def length_drop by arith
    have pos: "q < q2" by (simp add: q2_def)
    from less.hyps [OF u2(3) d2 u2(2) u2(1), of "add_results acc ([Str c], [])"]
    obtain q' toks t where "many_loop CELL s q2 da (add_results acc ([Str c], [])) = Inr (q', toks)"
      "drop q' s = CHR ''|'' # t" by blast
    then show ?thesis using 1 len pos by (subst many_loop.simps) simp
  qed
qed

lemma row_fail_adjacent:
  assumes d: "drop p s = ''|'' @ pre @ ''||'' @ rest" and o: "one_line pre"
  shows "\<exists>l. parseNoCache TABLE_ROW s p da False = Inl (ParseException l)"
proof -
  define q1 where "q1 = p + 1"
  define u where "u = pre @ ''|''"
  have d0: "drop p s = ''|'' @ (u @ ''|'' @ rest)" using d by (simp add: u_def)
  have f1: "parseNoCache (Suppress (Literal ''|'')) s p da False = Inr (q1, ([], []))"
    using pN_Literal_ok [OF d0] by (simp add: pN_Suppress q1_def)
  have d1: "drop q1 s = u @ ''|'' @ rest" using drop_more [OF d0] by (simp add: q1_def)
  have ou: "one_line u" "u \<noteq> []" "last u = CHR ''|''" using o by (simp_all add: u_def one_line_def)
  have "\<exists>l. parseNoCache (And [Suppress (Literal ''|''), OneOrMore CELL, EOL]) s p da False
          = Inl (ParseException l)"
  proof (cases "hd u = CHR ''|''")
    case True
    then have "drop q1 s = [] \<or> hd (drop q1 s) = CHR ''|'' \<or> hd (drop q1 s) = CHR 0x0A"
      using d1 ou(2) by (cases u) auto
    from cell_fail [OF this, of da False] obtain l
      where f: "parseNoCache CELL s q1 da False = Inl (ParseException l)" by blast
    have "parseNoCache (OneOrMore CELL) s q1 da True = Inl (ParseException l)"
      by (subst pN_OneOrMore) (simp add: f)
    then show ?thesis by (subst pN_And) (simp add: f1)
  next
    case False
    from split_at_bar [OF ou(2,3) False ou(1)] obtain c u2
      where uu: "u = c @ ''|'' @ u2" and v: "valid_cell c"
        and u2: "u2 = [] \<or> last u2 = CHR ''|''" "one_line u2" by blast
    define q2 where "q2 = q1 + length c + 1"
    have dd: "drop q1 s = c @ ''|'' @ (u2 @ ''|'' @ rest)" using d1 uu by simp
    have c1: "parseNoCache CELL s q1 da False = Inr (q2, ([Str c], []))"
      using cell_ok [OF dd v] by (simp add: q2_def)
    have d2: "drop q2 s = u2 @ ''|'' @ rest"
      using drop_more [of q1 s "c @ ''|''"] dd by (simp add: q2_def)
    from cells_stop [OF d2 u2(2) u2(1), of da "([Str c], [])"]
    obtain q' toks t where ml: "many_loop CELL s q2 da ([Str c], []) = Inr (q', toks)"
      and dq: "drop q' s = CHR ''|'' # t" by blast
    have O: "parseNoCache (OneOrMore CELL) s q1 da True = Inr (q', toks)"
      by (subst pN_OneOrMore) (simp add: c1 ml)
    have E: "parseNoCache EOL s q' da True = Inl (ParseException q')"
      by (rule pN_EOL_fail [OF dq]) simp_all
    obtain a b where t: "toks = (a, b)" by (cases toks)
    show ?thesis by (subst pN_And) (simp add: f1 O E t)
  qed
  then show ?thesis unfolding TABLE_ROW_def by (auto simp: pN_setParseAction)
qed

lemma row_fail_empty_first:
  assumes d: "drop p s = ''||'' @ rest"
  shows "\<exists>l. parseNoCache TABLE_ROW s p da False = Inl (ParseException l)"
proof -
  define q1 where "q1 = p + 1"
  have d0: "drop p s = ''|'' @ (''|'' @ rest)" using d by simp
  have f1: "parseNoCache (Suppress (Literal ''|'')) s p da False = Inr (q1, ([], []))"
    using pN_Literal_ok [OF d0] by (simp add: pN_Suppress q1_def)
  have d1: "drop q1 s = ''|'' @ rest" using drop_more [OF d0] by (simp add: q1_def)
  then have "drop q1 s = [] \<or> hd (drop q1 s) = CHR ''|'' \<or> hd (drop q1 s) = CHR 0x0A" by simp
  from cell_fail [OF this, of da False] obtain l
    where f: "parseNoCache CELL s q1 da False = Inl (ParseException l)" by blast
  have "parseNoCache (OneOrMore CELL) s q1 da True = Inl (ParseException l)"
    by (subst pN_OneOrMore) (simp add: f)
  then have "parseNoCache (And [Suppress (Literal ''|''), OneOrMore CELL, EOL]) s p da False
          = Inl (ParseException l)"
    by (subst pN_And) (simp add: f1)
  then show ?thesis unfolding TABLE_ROW_def by (auto simp: pN_setParseAction)
qed

lemma row_fail_no_bar:
  assumes d: "drop p s = c # rest" and c: "c \<noteq> CHR ''|''"
  shows "\<exists>l. parseNoCache TABLE_ROW s p da False = Inl (ParseException l)"
proof -
  have f1: "parseNoCache (Suppress (Literal ''|'')) s p da False = Inl (ParseException p)"
    using pN_Literal_fail [OF d, of "''|''" da] c by (simp add: pN_Suppress)
  have "parseNoCache (And [Suppress (Literal ''|''), OneOrMore CELL, EOL]) s p da False
          = Inl (ParseException p)"
    by (subst pN_And) (simp add: f1)
  then show ?thesis unfolding TABLE_ROW_def by (auto simp: pN_setParseAction)
qed

lemma row_fail_two_bars:
  assumes d: "drop p s = u @ ''||'' @ rest" and o: "one_line u"
  shows "\<exists>l. parseNoCache TABLE_ROW s p da False = Inl (ParseException l)"
proof (cases u)
  case Nil
  then show ?thesis using d row_fail_empty_first [of p s rest da] by simp
next
  case (Cons c pre)
  show ?thesis
  proof (cases "c = CHR ''|''")
    case True
    have "drop p s = ''|'' @ pre @ ''||'' @ rest" using d Cons True by simp
    moreover have "one_line pre" using o Cons by (simp add: one_line_def)
    ultimately show ?thesis by (rule row_fail_adjacent)
  next
    case False
    have "drop p s = c # (pre @ ''||'' @ rest)" using d Cons by simp
    then show ?thesis using False by (rule row_fail_no_bar)
  qed
qed

lemma strip_spaces: "strip (replicate n CHR '' '') = []"
proof -
  have "dropWhile isspace (replicate n CHR '' '') = []"
    by (simp add: dropWhile_eq_Nil_conv isspace_def)
  then show ?thesis by (simp add: strip_def)
qed

text \<open>
  Claim C9. In a table row every cell needs a character that is neither \<^verbatim>\<open>|\<close> nor a
  newline: a row with two \<^verbatim>\<open>|\<close> next to each other anywhere on its line, the opening
  \<^verbatim>\<open>|\<close> and the next one included (\<^verbatim>\<open>||a|\<close>), does not parse (a \<^verbatim>\<open>ParseException\<close>),
  while a cell of one or more spaces is accepted and becomes the empty string.
\<close>

theorem cell_needs_character:
  "(drop p s = u @ ''||'' @ rest \<and> one_line u \<longrightarrow>
      (\<exists>l. parseNoCache TABLE_ROW s p True False = Inl (ParseException l))) \<and>
   (drop p s = render_row (cs1 @ [replicate (Suc n) CHR '' ''] @ cs2) @ rest \<and>
    list_all valid_cell cs1 \<and> list_all valid_cell cs2 \<longrightarrow>
      parseNoCache TABLE_ROW s p True False =
        Inr (p + length (render_row (cs1 @ [replicate (Suc n) CHR '' ''] @ cs2)),
             (map (\<lambda>c. Str (strip c)) cs1 @ [Str []] @ map (\<lambda>c. Str (strip c)) cs2, [])))"
proof (intro conjI impI)
  assume "drop p s = u @ ''||'' @ rest \<and> one_line u"
  then show "\<exists>l. parseNoCache TABLE_ROW s p True False = Inl (ParseException l)"
    using row_fail_two_bars by blast
next
  assume a: "drop p s = render_row (cs1 @ [replicate (Suc n) CHR '' ''] @ cs2) @ rest \<and>
    list_all valid_cell cs1 \<and> list_all valid_cell cs2"
  have "valid_cell (replicate (Suc n) CHR '' '')" by (simp add: valid_cell_def)
  then have v: "valid_row (cs1 @ [replicate (Suc n) CHR '' ''] @ cs2)"
    using a by (simp add: valid_row_def)
  show "parseNoCache TABLE_ROW s p True False =
        Inr (p + length (render_row (cs1 @ [replicate (Suc n) CHR '' ''] @ cs2)),
             (map (\<lambda>c. Str (strip c)) cs1 @ [Str []] @ map (\<lambda>c. Str (strip c)) cs2, []))"
    using row_ok [OF _ v, of p s rest] a strip_spaces [of "Suc n"] by simp
qed

theorem cell_needs_character_witness:
  "(\<exists>l. parseNoCache TABLE_ROW (''||a|'' @ [CHR 0x0A]) 0 True False = Inl (ParseException l)) \<and>
   (\<exists>l. parseNoCache TABLE_ROW (''|a||b|'' @ [CHR 0x0A]) 0 True False = Inl (ParseException l)) \<and>
   parseNoCache TABLE_ROW (''|a|  |'' @ [CHR 0x0A]) 0 True False = Inr (7, ([Str ''a'', Str []], []))"
  using cell_needs_character [of 0 "''||a|'' @ [CHR 0x0A]" "[]" "''a|'' @ [CHR 0x0A]" "[]" 0 "[]"]
    cell_needs_character [of 0 "''|a||b|'' @ [CHR 0x0A]" "''|a''" "''b|'' @ [CHR 0x0A]" "[]" 0 "[]"]
    cell_needs_character [of 0 "''|a|  |'' @ [CHR 0x0A]" "[]" "[]" "[''a'']" 1 "[]"]
  by (simp add: one_line_def render_row_def valid_cell_def strip_def isspace_def)

section \<open>Tags\<close>

lemma impl_Word:
  "parseImpl (Word cs) s p da =
     (let pos = min p (length s); m = takeWhile (\<lambda>c. c \<in> set cs) (drop pos s)
      in if m = [] then Inl (ParseException p) else Inr (pos + length m, ([Str m], [])))"
  by (simp add: Word_def)





lemma at_not_white [simp]: "CHR ''@'' \<notin> set DEFAULT_WHITE_CHARS"
  by (simp add: DEFAULT_WHITE_CHARS_def)

lemma preParse_TAG [simp]: "preParse TAG s p = skip_white DEFAULT_WHITE_CHARS s p"
  by (simp add: TAG_def)





section \<open>Header lines\<close>

lemma impl_White:
  "parseImpl White s p da =
     (if length s \<le> p then Inl IndexError
      else let m = takeWhile (\<lambda>c. c \<in> set DEFAULT_WHITE_CHARS) (drop p s)
           in if m = [] then Inl (ParseException p) else Inr (p + length m, ([Str m], [])))"
  by (simp add: White_def)








lemma render_tags_Nil_iff: "render_tags ind tags = [] \<longleftrightarrow> tags = []"
  by (cases tags) (simp_all add: render_tags_def)

lemma preParse_TAGS [simp]: "preParse TAGS s p = skip_white DEFAULT_WHITE_CHARS s p"
  by simp



lemma getattr_simps:
  "getattr (ParseResults ts [(''tags'', a), (''name'', b)]) ''tags'' = Inr a"
  "getattr (ParseResults ts [(''tags'', a), (''name'', b)]) ''name'' = Inr b"
  by simp_all



section \<open>Tag attachment\<close>



section \<open>Every element returns or raises a ParseException\<close>

lemma fine0_simps [simp]:
  "fine0 s loc P (Inl x) = (is_ParseException x \<or> x = IndexError)"
  "fine0 s loc P (Inr (l, r)) = (within s loc l \<and> P r)"
  by (simp_all add: fine0_def)

lemma fine_simps [simp]:
  "fine e s loc P (Inl x) = (is_ParseException x \<or> x = IndexError \<and> \<not> mayIndexError e)"
  "fine e s loc P (Inr (l, r)) = (within s loc l \<and> P r)"
  by (auto simp: fine_def)

lemma fine_fine0: "fine e s loc P res \<Longrightarrow> fine0 s loc P res"
  by (simp add: fine_def)

lemma within_refl [simp]: "within s loc loc"
  by (simp add: within_def)

lemma within_trans: "within s a b \<Longrightarrow> within s b c \<Longrightarrow> within s a c"
  unfolding within_def by (auto simp: min_def max_def split: if_splits)

lemma skip_white_within: "within s loc (skip_white wt s loc)"
proof -
  have "length (takeWhile (\<lambda>c. c \<in> set wt) (drop loc s)) \<le> length s - loc"
    by (metis length_takeWhile_le length_drop)
  then show ?thesis by (auto simp: within_def skip_white_eq)
qed

lemma preParse_within: "within s loc (preParse e s loc)"
  by (simp add: preParse_def skip_white_within)

lemma fine0_pre: "within s loc p \<Longrightarrow> fine0 s p P res \<Longrightarrow> fine0 s loc P res"
  by (auto simp: fine0_def intro: within_trans split: sum.splits)

lemma fine_pre: "within s loc p \<Longrightarrow> fine e s p P res \<Longrightarrow> fine e s loc P res"
  by (auto simp: fine_def intro: fine0_pre)

lemma fine0_mono: "fine0 s loc P res \<Longrightarrow> (\<And>r. P r \<Longrightarrow> Q r) \<Longrightarrow> fine0 s loc Q res"
  by (auto simp: fine0_def split: sum.splits)

lemma fine_mono: "fine e s loc P res \<Longrightarrow> (\<And>r. P r \<Longrightarrow> Q r) \<Longrightarrow> fine e s loc Q res"
  by (auto simp: fine_def intro: fine0_mono)

lemma fine_catch:
  "fine0 s p P res \<Longrightarrow> mayIndexError w = mayIndexError e \<Longrightarrow>
   fine w s p P (catch_IndexError e s loc res)"
  by (auto simp: fine_def fine0_def catch_IndexError_def split: sum.splits exn.splits)

lemma pN_Inr:
  "parseNoCache e s loc da cpp = Inr x \<Longrightarrow>
   parseNoCache e s (if cpp \<and> callPreparse e then preParse e s loc else loc) da False = Inr x"
proof -
  define p where "p = (if cpp \<and> callPreparse e then preParse e s loc else loc)"
  assume a: "parseNoCache e s loc da cpp = Inr x"
  have "parseImpl e s p da \<noteq> Inl IndexError"
  proof
    assume "parseImpl e s p da = Inl IndexError"
    then have "\<exists>y. parseNoCache e s loc da cpp = Inl y"
      unfolding parseNoCache_def p_def [symmetric] by (simp add: catch_IndexError_def)
    then show False using a by auto
  qed
  then have "catch_IndexError e s loc (parseImpl e s p da) = catch_IndexError e s p (parseImpl e s p da)"
    by (simp add: catch_id)
  then have "parseNoCache e s p da False = parseNoCache e s loc da cpp"
    unfolding parseNoCache_def p_def [symmetric] by simp
  then show "parseNoCache e s p da False = Inr x" using a by simp
qed

lemma soundI:
  assumes "\<And>s loc. fine e s loc P (parseNoCache e s loc da False)"
  shows "sound da P e"
  unfolding sound_def
proof (intro allI)
  fix s loc cpp
  define p where "p = (if cpp \<and> callPreparse e then preParse e s loc else loc)"
  have w: "within s loc p" by (simp add: p_def preParse_within)
  show "fine e s loc P (parseNoCache e s loc da cpp)"
  proof (cases "parseImpl e s p da = Inl IndexError")
    case True
    then have "parseNoCache e s loc da cpp = catch_IndexError e s loc (Inl IndexError)"
      unfolding parseNoCache_def p_def [symmetric] by (simp add: catch_IndexError_def)
    then show ?thesis by (simp add: catch_IndexError_def)
  next
    case False
    then have "catch_IndexError e s loc (parseImpl e s p da) =
        catch_IndexError e s p (parseImpl e s p da)"
      by (simp add: catch_id)
    then have "parseNoCache e s loc da cpp = parseNoCache e s p da False"
      unfolding parseNoCache_def p_def [symmetric] by simp
    then show ?thesis using fine_pre [OF w assms [of s p]] by simp
  qed
qed

lemma soundD: "sound da P e \<Longrightarrow> fine e s loc P (parseNoCache e s loc da cpp)"
  by (simp add: sound_def)

lemma soundD0: "sound da P e \<Longrightarrow> fine0 s loc P (parseNoCache e s loc da cpp)"
  by (simp add: sound_def fine_def)

lemma sound_mono: "sound da P e \<Longrightarrow> (\<And>r. P r \<Longrightarrow> Q r) \<Longrightarrow> sound da Q e"
  unfolding sound_def by (blast intro: fine_mono)

lemma consumingI:
  assumes "\<And>s loc l r. parseNoCache e s loc da False = Inr (l, r) \<Longrightarrow> loc < length s \<and> loc < l"
  shows "consuming da e"
  unfolding consuming_def
proof (intro allI impI)
  fix s loc cpp l r
  assume a: "parseNoCache e s loc da cpp = Inr (l, r)"
  define p where "p = (if cpp \<and> callPreparse e then preParse e s loc else loc)"
  have "parseNoCache e s p da False = Inr (l, r)" using pN_Inr [OF a] by (simp add: p_def)
  from assms [OF this] have "p < length s \<and> p < l" .
  moreover have "loc \<le> p" by (simp add: p_def preParse_ge)
  ultimately show "loc < length s \<and> loc < l" by simp
qed

lemma consumingD:
  "consuming da e \<Longrightarrow> parseNoCache e s loc da cpp = Inr (l, r) \<Longrightarrow> loc < length s \<and> loc < l"
  unfolding consuming_def by blast

subsection \<open>Tokens\<close>

lemma startswith_len: "startswith s m loc \<Longrightarrow> loc + length m \<le> max loc (length s)"
proof -
  assume "startswith s m loc"
  then have "length (take (length m) (drop loc s)) = length m" by (simp add: startswith_def)
  then have "length m \<le> length s - loc" by simp
  then show ?thesis by (cases "loc \<le> length s") (auto simp: max_def)
qed

lemma sound_Literal: "sound da (single is_Str) (Literal m)"
proof (rule soundI)
  fix s loc
  show "fine (Literal m) s loc (single is_Str) (parseNoCache (Literal m) s loc da False)"
    using startswith_len [of s m loc]
    by (auto simp: pN_tok_False impl_Literal within_def single_def)
qed

lemma consuming_Literal: "m \<noteq> [] \<Longrightarrow> consuming da (Literal m)"
  by (rule consumingI) (auto simp: pN_tok_False impl_Literal split: if_splits)

lemma sound_Keyword: "sound da (single is_Str) (Keyword m)"
proof (rule soundI)
  fix s loc
  show "fine (Keyword m) s loc (single is_Str) (parseNoCache (Keyword m) s loc da False)"
    using startswith_len [of s m loc]
    by (auto simp: pN_tok_False impl_Keyword within_def single_def)
qed

lemma consuming_Keyword: "m \<noteq> [] \<Longrightarrow> consuming da (Keyword m)"
  by (rule consumingI) (auto simp: pN_tok_False impl_Keyword split: if_splits)

lemma takeWhile_bound: "p + length (takeWhile P (drop p s)) \<le> max p (length s)"
proof -
  have "length (takeWhile P (drop p s)) \<le> length s - p"
    by (metis length_takeWhile_le length_drop)
  then show ?thesis by (cases "p \<le> length s") (auto simp: max_def)
qed

lemma sound_Word: "sound da (single is_Str) (Word cs)"
proof (rule soundI)
  fix s loc
  show "fine (Word cs) s loc (single is_Str) (parseNoCache (Word cs) s loc da False)"
    using takeWhile_bound [of "min loc (length s)" "\<lambda>c. c \<in> set cs" s]
    by (auto simp: pN_tok_False impl_Word Let_def within_def single_def)
qed

lemma consuming_Word: "consuming da (Word cs)"
proof (rule consumingI)
  fix s loc l r
  assume "parseNoCache (Word cs) s loc da False = Inr (l, r)"
  then show "loc < length s \<and> loc < l"
    by (cases "loc < length s")
       (auto simp: pN_tok_False impl_Word Let_def min_def split: if_splits)
qed

lemma sound_restOfLine: "sound da (single is_Str) restOfLine"
proof (rule soundI)
  fix s loc
  show "fine restOfLine s loc (single is_Str) (parseNoCache restOfLine s loc da False)"
    using takeWhile_bound [of "min loc (length s)" "\<lambda>c. c \<noteq> CHR 0x0A" s]
    by (auto simp: pN_tok_False impl_restOfLine Let_def within_def single_def)
qed

lemma sound_White: "sound da (single is_Str) White"
proof (rule soundI)
  fix s loc
  show "fine White s loc (single is_Str) (parseNoCache White s loc da False)"
    using takeWhile_bound [of loc "\<lambda>c. c \<in> set DEFAULT_WHITE_CHARS" s]
    by (auto simp: pN_tok_False impl_White Let_def within_def single_def)
qed

lemma consuming_White: "consuming da White"
  by (rule consumingI) (auto simp: pN_tok_False impl_White Let_def split: if_splits)

lemma sound_CharsNotIn: "sound da (single is_Str) (CharsNotIn cs)"
proof (rule soundI)
  fix s loc
  show "fine (CharsNotIn cs) s loc (single is_Str) (parseNoCache (CharsNotIn cs) s loc da False)"
    using takeWhile_bound [of loc "\<lambda>c. c \<notin> set cs" s]
    by (auto simp: pN_tok_False impl_CharsNotIn Let_def within_def single_def)
qed

lemma consuming_CharsNotIn: "consuming da (CharsNotIn cs)"
  by (rule consumingI) (auto simp: pN_tok_False impl_CharsNotIn Let_def split: if_splits)

lemma impl_lineEnd:
  "parseImpl lineEnd s loc da =
     (if loc < length s then
       (if s ! loc = CHR 0x0A then Inr (loc + 1, ([Str [CHR 0x0A]], []))
        else Inl (ParseException loc))
     else if loc = length s then Inr (loc + 1, ([], []))
     else Inl (ParseException loc))"
  by (simp add: lineEnd_def)

lemma sound_lineEnd: "sound da (many is_Str) lineEnd"
  by (rule soundI) (auto simp: pN_tok_False impl_lineEnd within_def many_def catch_IndexError_def)

lemma impl_stringEnd:
  "parseImpl stringEnd s loc da =
     (if loc < length s then Inl (ParseException loc)
      else if loc = length s then Inr (loc + 1, ([], []))
      else Inr (loc, ([], [])))"
  by (simp add: stringEnd_def)

lemma sound_stringEnd: "sound da none stringEnd"
  by (rule soundI) (auto simp: pN_tok_False impl_stringEnd within_def none_def catch_IndexError_def)

lemma quoted_body_bound: "quoted_body s i = Some e \<Longrightarrow> i + 3 \<le> e \<and> e \<le> max i (length s)"
proof (induction "length s - i" arbitrary: i rule: less_induct)
  case less
  have IH: "\<And>j. quoted_body s j = Some e \<Longrightarrow> i < j \<Longrightarrow> j \<le> length s \<Longrightarrow>
              j + 3 \<le> e \<and> e \<le> max j (length s)"
    by (rule less.hyps) auto
  from less.prems show ?case
    apply (subst (asm) quoted_body.simps)
    apply (auto split: option.splits if_splits dest!: IH startswith_len simp: max_def)
    done
qed

lemma sound_MULTILINE: "sound da (single is_Str) MULTILINE"
proof (rule soundI)
  fix s loc
  show "fine MULTILINE s loc (single is_Str) (parseNoCache MULTILINE s loc da False)"
    by (auto simp: pN_tok_False impl_MULTILINE within_def single_def max_def
          split: option.splits dest!: quoted_body_bound split: if_splits)
qed

lemma consuming_MULTILINE: "consuming da MULTILINE"
  by (rule consumingI)
     (auto simp: pN_tok_False impl_MULTILINE split: option.splits if_splits dest!: quoted_body_bound)

subsection \<open>Combinators\<close>

lemma single_iff: "single Q r \<longleftrightarrow> (\<exists>v. r = ([v], []) \<and> Q v)"
  by (auto simp: single_def split: prod.splits list.splits)

lemma named_single_iff: "named_single n Q r \<longleftrightarrow> (\<exists>v. r = ([v], [(n, v)]) \<and> Q v)"
  by (auto simp: named_single_def split: prod.splits list.splits)

lemma many_iff: "many Q r \<longleftrightarrow> (\<exists>vs. r = (vs, []) \<and> list_all Q vs)"
  by (cases r) (auto simp: many_def)

lemma sound_Suppress:
  assumes "sound da P e"
  shows "sound da none (Suppress e)"
proof (rule soundI)
  fix s loc
  show "fine (Suppress e) s loc none (parseNoCache (Suppress e) s loc da False)"
    using soundD [OF assms, of s loc False]
    by (auto simp: pN_Suppress none_def fine_def fine0_def catch_IndexError_def
          split: sum.splits exn.splits)
qed

lemma consuming_Suppress: "consuming da e \<Longrightarrow> consuming da (Suppress e)"
  by (rule consumingI)
     (auto simp: pN_Suppress catch_IndexError_def split: sum.splits exn.splits if_splits
        dest: consumingD)

lemma sound_Group:
  assumes "sound da P e"
  shows "sound da (single (grouped P)) (Group e)"
proof (rule soundI)
  fix s loc
  show "fine (Group e) s loc (single (grouped P)) (parseNoCache (Group e) s loc da False)"
    using soundD [OF assms, of s loc False]
    by (auto simp: pN_Group single_def fine_def fine0_def catch_IndexError_def
          split: sum.splits exn.splits)
qed

lemma consuming_Group: "consuming da e \<Longrightarrow> consuming da (Group e)"
  by (rule consumingI)
     (auto simp: pN_Group catch_IndexError_def split: sum.splits exn.splits if_splits
        dest: consumingD)

lemma sound_Optional:
  assumes "sound da P e" "P ([], [])"
  shows "sound da P (Optional e)"
proof (rule soundI)
  fix s loc
  show "fine (Optional e) s loc P (parseNoCache (Optional e) s loc da False)"
    using soundD [OF assms(1), of s loc False] assms(2)
    by (auto simp: pN_Optional fine_def fine0_def split: sum.splits exn.splits)
qed

lemma fine_many_loop:
  assumes "sound da P e" "consuming da e" "\<And>a r. I a \<Longrightarrow> P r \<Longrightarrow> I (add_results a r)" "I acc"
  shows "fine0 s loc I (many_loop e s loc da acc)"
  using assms
proof (induction e s loc da acc rule: many_loop.induct)
  case (1 expr instring loc doActions tokens)
  note snd = soundD [OF "1.prems"(1), of instring loc True]
  show ?case
  proof (cases "parseNoCache expr instring loc doActions True")
    case (Inl x)
    then have "(\<exists>l. x = ParseException l) \<or> x = IndexError" using snd by (cases x) auto
    then show ?thesis using Inl "1.prems"(4) by (subst many_loop.simps) auto
  next
    case (Inr lr)
    obtain l r where lr: "lr = (l, r)" by (cases lr)
    have w: "within instring loc l" and p: "P r" using snd Inr lr by auto
    have c: "loc < length instring" "loc < l"
      using consumingD [OF "1.prems"(2)] Inr lr by blast+
    then have g: "loc < l \<and> l \<le> Suc (length instring)" using w by (auto simp: within_def)
    have I': "I (add_results tokens r)" using "1.prems"(3,4) p by blast
    have "fine0 instring l I (many_loop expr instring l doActions (add_results tokens r))"
      using "1.IH" [OF Inr lr [symmetric] g "1.prems"(1,2,3) I'] by blast
    then have "fine0 instring loc I (many_loop expr instring l doActions (add_results tokens r))"
      by (rule fine0_pre [OF w])
    then show ?thesis using Inr lr g by (subst many_loop.simps) simp
  qed
qed

lemma add_results_Nil [simp]: "add_results ([], []) r = r" "add_results r ([], []) = r"
  by (simp_all add: add_results_def)

lemma sound_ZeroOrMore:
  assumes "sound da P e" "consuming da e" "\<And>a r. I a \<Longrightarrow> P r \<Longrightarrow> I (add_results a r)" "I ([], [])"
  shows "sound da I (ZeroOrMore e)"
proof (rule soundI)
  fix s loc
  note snd = soundD [OF assms(1), of s loc False]
  show "fine (ZeroOrMore e) s loc I (parseNoCache (ZeroOrMore e) s loc da False)"
  proof (cases "parseNoCache e s loc da False")
    case (Inl x)
    then have "(\<exists>l. x = ParseException l) \<or> x = IndexError" using snd by (cases x) auto
    then show ?thesis using Inl assms(4) by (auto simp: pN_ZeroOrMore)
  next
    case (Inr lr)
    obtain l r where lr: "lr = (l, r)" by (cases lr)
    have w: "within s loc l" and p: "P r" using snd Inr lr by auto
    have "I r" using assms(3) [OF assms(4) p] by simp
    from fine_many_loop [OF assms(1,2,3) this]
    have "fine0 s l I (many_loop e s l da r)" by blast
    then have "fine0 s loc I (many_loop e s l da r)" by (rule fine0_pre [OF w])
    then show ?thesis using Inr lr
      by (simp add: pN_ZeroOrMore fine_def many_loop_no_IndexError)
  qed
qed

lemma sound_OneOrMore:
  assumes "sound da P e" "consuming da e" "\<And>a r. I a \<Longrightarrow> P r \<Longrightarrow> I (add_results a r)"
    "\<And>r. P r \<Longrightarrow> I r"
  shows "sound da I (OneOrMore e)"
proof (rule soundI)
  fix s loc
  note snd = soundD [OF assms(1), of s loc False]
  show "fine (OneOrMore e) s loc I (parseNoCache (OneOrMore e) s loc da False)"
  proof (cases "parseNoCache e s loc da False")
    case (Inl x)
    then show ?thesis using snd
      by (auto simp: pN_OneOrMore catch_IndexError_def split: exn.splits)
  next
    case (Inr lr)
    obtain l r where lr: "lr = (l, r)" by (cases lr)
    have w: "within s loc l" and p: "P r" using snd Inr lr by auto
    have "I r" using assms(4) [OF p] .
    from fine_many_loop [OF assms(1,2,3) this]
    have "fine0 s l I (many_loop e s l da r)" by blast
    then have "fine0 s loc I (many_loop e s l da r)" by (rule fine0_pre [OF w])
    then show ?thesis using Inr lr
      by (simp add: pN_OneOrMore fine_def many_loop_no_IndexError)
  qed
qed

lemma consuming_OneOrMore:
  assumes "sound da P e" "consuming da e"
  shows "consuming da (OneOrMore e)"
proof (rule consumingI)
  fix s loc l r
  assume a: "parseNoCache (OneOrMore e) s loc da False = Inr (l, r)"
  then obtain l1 r1 where f: "parseNoCache e s loc da False = Inr (l1, r1)"
    and m: "many_loop e s l1 da r1 = Inr (l, r)"
    by (auto simp: pN_OneOrMore catch_IndexError_def split: sum.splits exn.splits if_splits)
  have c: "loc < length s" "loc < l1" using consumingD [OF assms(2) f] by auto
  have "fine0 s l1 (\<lambda>r. True) (many_loop e s l1 da r1)"
    by (rule fine_many_loop [OF assms]) simp_all
  then have "within s l1 l" using m by simp
  then show "loc < length s \<and> loc < l" using c by (auto simp: within_def)
qed

lemma fine_And_loop:
  "list_all2 (sound da) Ps es \<Longrightarrow>
   fine0 s loc (\<lambda>r. \<exists>rs. list_all2 (\<lambda>P r. P r) Ps rs \<and> r = foldl add_results acc rs)
     (And_loop es s loc da acc)"
proof (induction es arbitrary: Ps loc acc)
  case Nil
  then show ?case by simp
next
  case (Cons e es)
  then obtain P Ps' where Ps: "Ps = P # Ps'" and e: "sound da P e"
    and es: "list_all2 (sound da) Ps' es"
    by (auto simp: list_all2_Cons2)
  note snd = soundD [OF e, of s loc True]
  show ?case
  proof (cases "parseNoCache e s loc da True")
    case (Inl x)
    then show ?thesis using snd by auto
  next
    case (Inr lr)
    obtain l r where lr: "lr = (l, r)" by (cases lr)
    have w: "within s loc l" and p: "P r" using snd Inr lr by auto
    have "fine0 s l (\<lambda>r'. \<exists>rs. list_all2 (\<lambda>P r. P r) Ps' rs \<and>
            r' = foldl add_results (add_results acc r) rs)
          (And_loop es s l da (add_results acc r))"
      by (rule Cons.IH [OF es])
    then have "fine0 s loc (\<lambda>r'. \<exists>rs. list_all2 (\<lambda>P r. P r) Ps' rs \<and>
            r' = foldl add_results (add_results acc r) rs)
          (And_loop es s l da (add_results acc r))"
      by (rule fine0_pre [OF w])
    then have "fine0 s loc (\<lambda>r'. \<exists>rs. list_all2 (\<lambda>P r. P r) Ps rs \<and> r' = foldl add_results acc rs)
          (And_loop es s l da (add_results acc r))"
    proof (rule fine0_mono)
      fix r'
      assume "\<exists>rs. list_all2 (\<lambda>P r. P r) Ps' rs \<and> r' = foldl add_results (add_results acc r) rs"
      then obtain rs where "list_all2 (\<lambda>P r. P r) Ps' rs"
        "r' = foldl add_results (add_results acc r) rs" by blast
      then have "list_all2 (\<lambda>P r. P r) Ps (r # rs) \<and> r' = foldl add_results acc (r # rs)"
        using p Ps by simp
      then show "\<exists>rs. list_all2 (\<lambda>P r. P r) Ps rs \<and> r' = foldl add_results acc rs" by blast
    qed
    then show ?thesis using Inr lr by simp
  qed
qed

lemma sound_And:
  assumes "sound da P e" "list_all2 (sound da) Ps es"
    and "\<And>r rs. P r \<Longrightarrow> list_all2 (\<lambda>P r. P r) Ps rs \<Longrightarrow> Q (foldl add_results r rs)"
  shows "sound da Q (And (e # es))"
proof (rule soundI)
  fix s loc
  note snd = soundD [OF assms(1), of s loc False]
  show "fine (And (e # es)) s loc Q (parseNoCache (And (e # es)) s loc da False)"
  proof (cases "parseNoCache e s loc da False")
    case (Inl x)
    then show ?thesis using snd by (cases x) (auto simp: pN_And)
  next
    case (Inr lr)
    obtain l r where lr: "lr = (l, r)" by (cases lr)
    have w: "within s loc l" and p: "P r" using snd Inr lr by auto
    have "fine0 s l (\<lambda>r'. \<exists>rs. list_all2 (\<lambda>P r. P r) Ps rs \<and> r' = foldl add_results r rs)
            (And_loop es s l da r)"
      by (rule fine_And_loop [OF assms(2)])
    then have "fine0 s l Q (And_loop es s l da r)"
      by (rule fine0_mono) (use assms(3) p in blast)
    then have "fine0 s loc Q (And_loop es s l da r)" by (rule fine0_pre [OF w])
    then have "fine (And (e # es)) s loc Q (catch_IndexError (And (e # es)) s loc (And_loop es s l da r))"
      by (rule fine_catch) simp
    then show ?thesis using Inr lr by (simp add: pN_And)
  qed
qed

lemma consuming_And:
  assumes "consuming da e" "list_all2 (sound da) Ps es"
  shows "consuming da (And (e # es))"
proof (rule consumingI)
  fix s loc l r
  assume a: "parseNoCache (And (e # es)) s loc da False = Inr (l, r)"
  then obtain l1 r1 where f: "parseNoCache e s loc da False = Inr (l1, r1)"
    and m: "And_loop es s l1 da r1 = Inr (l, r)"
    by (auto simp: pN_And catch_IndexError_def split: sum.splits exn.splits if_splits)
  have c: "loc < length s" "loc < l1" using consumingD [OF assms(1) f] by auto
  have "within s l1 l" using fine_And_loop [OF assms(2), of s l1 r1] m by simp
  then show "loc < length s \<and> loc < l" using c by (auto simp: within_def)
qed

lemma fine_MatchFirst_loop:
  "list_all (sound da P) es \<Longrightarrow> fine0 s loc P (MatchFirst_loop es s loc da m)"
proof (induction es arbitrary: m)
  case Nil
  then show ?case by (cases m) simp_all
next
  case (Cons e es)
  then have e: "sound da P e" and es: "list_all (sound da P) es" by simp_all
  note snd = soundD [OF e, of s loc True]
  show ?case
  proof (cases "parseNoCache e s loc da True")
    case (Inl x)
    then have "(\<exists>l. x = ParseException l) \<or> x = IndexError" using snd by (cases x) auto
    then show ?thesis using Inl Cons.IH [OF es] by auto
  next
    case (Inr lr)
    then show ?thesis using snd by (cases lr) simp
  qed
qed

lemma sound_MatchFirst: "list_all (sound da P) es \<Longrightarrow> sound da P (MatchFirst es)"
  by (rule soundI)
     (simp add: pN_MatchFirst fine_def fine_MatchFirst_loop MatchFirst_loop_no_IndexError)

lemma consuming_MatchFirst_loop:
  "list_all (consuming da) es \<Longrightarrow> MatchFirst_loop es s loc da m = Inr (l, r) \<Longrightarrow>
   loc < length s \<and> loc < l"
proof (induction es arbitrary: m)
  case Nil
  then show ?case by (cases m) simp_all
next
  case (Cons e es)
  show ?case
  proof (cases "parseNoCache e s loc da True")
    case (Inl x)
    then show ?thesis using Cons by (cases x) (auto split: option.splits)
  next
    case (Inr lr)
    then have "parseNoCache e s loc da True = Inr (l, r)" using Cons.prems(2) by simp
    then show ?thesis using Cons.prems(1) by (auto dest: consumingD)
  qed
qed

lemma consuming_MatchFirst: "list_all (consuming da) es \<Longrightarrow> consuming da (MatchFirst es)"
  by (rule consumingI) (auto simp: pN_MatchFirst dest: consuming_MatchFirst_loop)

lemma fine_SkipTo_loop:
  assumes "sound False P e"
  shows "fine0 s loc (single is_Str) (SkipTo_loop e s start loc)"
  using assms
proof (induction e s start loc rule: SkipTo_loop.induct)
  case (1 expr instring startLoc loc)
  note snd = soundD [OF "1.prems", of instring loc False]
  show ?case
  proof (cases "loc \<le> length instring")
    case False
    then show ?thesis by (subst SkipTo_loop.simps) simp
  next
    case True
    have w: "within instring loc (loc + 1)" using True by (simp add: within_def)
    show ?thesis
    proof (cases "parseNoCache expr instring loc False False")
      case (Inl x)
      then consider l where "x = ParseException l" | "x = IndexError" using snd by (cases x) auto
      then show ?thesis
      proof cases
        case 1
        have "fine0 instring (loc + 1) (single is_Str) (SkipTo_loop expr instring startLoc (loc + 1))"
          using "1.IH"(1) [OF True Inl 1 "1.prems"] .
        then have "fine0 instring loc (single is_Str) (SkipTo_loop expr instring startLoc (loc + 1))"
          by (rule fine0_pre [OF w])
        then show ?thesis using True Inl 1 by (subst SkipTo_loop.simps) simp
      next
        case 2
        have "fine0 instring (loc + 1) (single is_Str) (SkipTo_loop expr instring startLoc (loc + 1))"
          using "1.IH"(2) [OF True Inl 2 "1.prems"] .
        then have "fine0 instring loc (single is_Str) (SkipTo_loop expr instring startLoc (loc + 1))"
          by (rule fine0_pre [OF w])
        then show ?thesis using True Inl 2 by (subst SkipTo_loop.simps) simp
      qed
    next
      case (Inr lr)
      then show ?thesis using True by (subst SkipTo_loop.simps) (simp add: single_def)
    qed
  qed
qed

lemma sound_SkipTo: "sound False P e \<Longrightarrow> sound da (single is_Str) (SkipTo e)"
  by (rule soundI)
     (simp add: pN_SkipTo fine_def fine_SkipTo_loop SkipTo_loop_no_IndexError)

lemma sound_action:
  assumes "sound da (\<lambda>r. da \<longrightarrow> P r) e" "parseAction e = None" "resultsName e = None"
    and "\<And>r. P r \<Longrightarrow> \<exists>vs. fn r = Inr vs \<and> vs \<noteq> [] \<and> Q (vs, [])"
  shows "sound da (\<lambda>r. da \<longrightarrow> Q r) (setParseAction fn e)"
proof (rule soundI)
  fix s loc
  note snd = soundD [OF assms(1), of s loc False]
  show "fine (setParseAction fn e) s loc (\<lambda>r. da \<longrightarrow> Q r)
          (parseNoCache (setParseAction fn e) s loc da False)"
  proof (cases "parseNoCache e s loc da False")
    case (Inl x)
    then show ?thesis using snd by (simp add: pN_setParseAction [OF assms(2)])
  next
    case (Inr lr)
    obtain l r where lr: "lr = (l, r)" by (cases lr)
    have w: "within s loc l" and p: "da \<longrightarrow> P r" using snd Inr lr by auto
    show ?thesis
    proof (cases da)
      case True
      then obtain vs where "fn r = Inr vs" "vs \<noteq> []" "Q (vs, [])" using assms(4) p by blast
      then show ?thesis using Inr lr w True assms(3)
        by (cases vs) (simp_all add: pN_setParseAction [OF assms(2)])
    next
      case False
      then show ?thesis using Inr lr w by (simp add: pN_setParseAction [OF assms(2)])
    qed
  qed
qed

lemma consuming_action:
  "consuming da e \<Longrightarrow> parseAction e = None \<Longrightarrow> consuming da (setParseAction fn e)"
  by (rule consumingI)
     (auto simp: pN_setParseAction split: sum.splits if_splits list.splits dest: consumingD)

lemma pN_named:
  assumes "resultsName e = None"
    and "\<And>fn r. parseAction e = Some fn \<Longrightarrow> fn (name_results (Some n) r) = fn r"
  shows "parseNoCache (named e n) s loc da cpp =
     (case parseNoCache e s loc da cpp of
        Inl x \<Rightarrow> Inl x
      | Inr (l, r) \<Rightarrow> Inr (l, name_results (Some n) r))"
proof -
  define p where "p = (if cpp \<and> callPreparse e then preParse e s loc else loc)"
  have pw: "(if cpp \<and> callPreparse (named e n) then preParse (named e n) s loc else loc) = p"
    by (simp add: p_def)
  have pe: "(if cpp \<and> callPreparse e then preParse e s loc else loc) = p" by (simp add: p_def)
  show ?thesis
  proof (cases "parseAction e")
    case None
    then show ?thesis using assms(1) unfolding parseNoCache_def pw pe Let_def
      by (cases "catch_IndexError e s loc (parseImpl e s p da)") (auto split: sum.splits)
  next
    case (Some fn)
    have fn: "\<And>r. fn (name_results (Some n) r) = fn r" using assms(2) Some by blast
    show ?thesis using assms(1) Some unfolding parseNoCache_def pw pe Let_def
      by (cases "catch_IndexError e s loc (parseImpl e s p da)")
         (auto simp: fn split: sum.splits list.splits if_splits)
  qed
qed

lemma sound_named:
  assumes "sound da (\<lambda>r. da \<longrightarrow> single Q r) e" "resultsName e = None"
    and "\<And>fn r. parseAction e = Some fn \<Longrightarrow> fn (name_results (Some n) r) = fn r"
  shows "sound da (\<lambda>r. da \<longrightarrow> named_single n Q r) (named e n)"
  unfolding sound_def
proof (intro allI)
  fix s loc cpp
  show "fine (named e n) s loc (\<lambda>r. da \<longrightarrow> named_single n Q r)
          (parseNoCache (named e n) s loc da cpp)"
    using soundD [OF assms(1), of s loc cpp]
    by (auto simp: pN_named [OF assms(2,3)] fine_def fine0_def single_iff named_single_iff
          split: sum.splits)
qed

lemma consuming_named:
  assumes "consuming da e" "resultsName e = None"
    and "\<And>fn r. parseAction e = Some fn \<Longrightarrow> fn (name_results (Some n) r) = fn r"
  shows "consuming da (named e n)"
  by (rule consumingI) (auto simp: pN_named [OF assms(2,3)] split: sum.splits dest: consumingD [OF assms(1)])

subsection \<open>The grammar\<close>

lemma grouped_iff: "grouped P v \<longleftrightarrow> (\<exists>a b. v = ParseResults a b \<and> P (a, b))"
  by (cases v) auto

lemma is_Str_iff: "is_Str v \<longleftrightarrow> (\<exists>x. v = Str x)"
  by (cases v) auto

lemma many1_iff: "many1 Q r \<longleftrightarrow> (\<exists>v vs. r = (v # vs, []) \<and> Q v \<and> list_all Q vs)"
  by (cases r; cases "fst r") (auto simp: many1_def many_def)

lemma sound_loop:
  assumes "sound da (\<lambda>r. da \<longrightarrow> single Q r) e" "consuming da e"
  shows "sound da (\<lambda>r. da \<longrightarrow> many Q r) (ZeroOrMore e)"
    and "sound da (\<lambda>r. da \<longrightarrow> many1 Q r) (OneOrMore e)"
proof -
  show "sound da (\<lambda>r. da \<longrightarrow> many Q r) (ZeroOrMore e)"
    by (rule sound_ZeroOrMore [OF assms])
       (auto simp: many_iff single_iff add_results_def)
  show "sound da (\<lambda>r. da \<longrightarrow> many1 Q r) (OneOrMore e)"
    by (rule sound_OneOrMore [OF assms])
       (auto simp: many1_iff single_iff add_results_def)
qed

lemma sound_group:
  assumes "sound da (\<lambda>r. da \<longrightarrow> P r) e"
  shows "sound da (\<lambda>r. da \<longrightarrow> single (grouped P) r) (Group e)"
  by (rule sound_mono [OF sound_Group [OF assms]]) (auto simp: single_iff grouped_iff)

lemma sound_token: "sound da (single Q) e \<Longrightarrow> sound da (\<lambda>r. da \<longrightarrow> single Q r) e"
  by (erule sound_mono) simp

lemma sound_EOL: "sound da none EOL"
  unfolding EOL_def by (rule sound_Suppress [OF sound_lineEnd])

lemma sound_TAG: "sound da (\<lambda>r. da \<longrightarrow> single isinstance_Tag r) TAG"
  unfolding TAG_def
proof (rule sound_action)
  show "sound da (\<lambda>r. da \<longrightarrow> single is_Str r) (And [Suppress (Literal ''@''), Word printables, EOL])"
    by (rule sound_And [where P = none and Ps = "[single is_Str, none]"])
       (auto simp: sound_Suppress [OF sound_Literal] sound_Word sound_EOL none_def single_iff
          list_all2_Cons1 add_results_def)
  show "\<And>r. single is_Str r \<Longrightarrow>
          \<exists>vs. construct Tag_init r = Inr vs \<and> vs \<noteq> [] \<and> single isinstance_Tag (vs, [])"
    by (auto simp: single_iff construct_def)
qed simp_all

lemma consuming_TAG: "consuming da TAG"
  unfolding TAG_def
  by (intro consuming_action consuming_And [where Ps = "[single is_Str, none]"] consuming_Suppress
        consuming_Literal)
     (simp_all add: sound_Word sound_EOL)

lemma sound_CELL: "sound da (single is_Str) CELL"
  by (rule sound_And [where P = "single is_Str" and Ps = "[none]"])
     (auto simp: sound_Suppress [OF sound_Literal] sound_CharsNotIn none_def single_iff
        list_all2_Cons1 add_results_def)

lemma consuming_CELL: "consuming da CELL"
  by (rule consuming_And [where Ps = "[none]"])
     (simp_all add: consuming_CharsNotIn sound_Suppress [OF sound_Literal])

lemma strip_tokens_ok:
  "list_all is_Str vs \<Longrightarrow> \<exists>ws. strip_tokens vs = Inr ws \<and> length ws = length vs \<and> list_all is_Str ws"
  by (induction vs) (auto simp: is_Str_iff)

lemma sound_cells: "sound da (\<lambda>r. da \<longrightarrow> many1 is_Str r) (OneOrMore CELL)"
  by (rule sound_loop [OF sound_token [OF sound_CELL] consuming_CELL])

lemma sound_TABLE_ROW: "sound da (\<lambda>r. da \<longrightarrow> many1 is_Str r) TABLE_ROW"
  unfolding TABLE_ROW_def
proof (rule sound_action)
  show "sound da (\<lambda>r. da \<longrightarrow> many1 is_Str r) (And [Suppress (Literal ''|''), OneOrMore CELL, EOL])"
    by (rule sound_And [where P = none and Ps = "[\<lambda>r. da \<longrightarrow> many1 is_Str r, none]"])
       (auto simp: sound_Suppress [OF sound_Literal] sound_cells sound_EOL none_def
          list_all2_Cons1 add_results_def)
  show "\<And>r. many1 is_Str r \<Longrightarrow>
          \<exists>vs. strip_tokens (fst r) = Inr vs \<and> vs \<noteq> [] \<and> many1 is_Str (vs, [])"
  proof -
    fix r :: results
    assume "many1 is_Str r"
    then obtain v vs where r: "r = (v # vs, [])" "list_all is_Str (v # vs)"
      by (auto simp: many1_iff)
    from strip_tokens_ok [OF r(2)] obtain ws where
      "strip_tokens (v # vs) = Inr ws" "length ws = length (v # vs)" "list_all is_Str ws" by blast
    then show "\<exists>vs. strip_tokens (fst r) = Inr vs \<and> vs \<noteq> [] \<and> many1 is_Str (vs, [])"
      using r by (cases ws) (auto simp: many1_iff)
  qed
qed simp_all

lemma consuming_TABLE_ROW: "consuming da TABLE_ROW"
  unfolding TABLE_ROW_def
  by (intro consuming_action
        consuming_And [where Ps = "[\<lambda>r. da \<longrightarrow> many1 is_Str r, none]"] consuming_Suppress
        consuming_Literal)
     (simp_all add: sound_cells sound_EOL)

lemma sound_rows: "sound da (\<lambda>r. da \<longrightarrow> many1 is_row r) (OneOrMore (Group TABLE_ROW))"
  by (rule sound_loop [OF sound_group [OF sound_TABLE_ROW] consuming_Group [OF consuming_TABLE_ROW]])

lemma sound_table_as:
  "sound da (\<lambda>r. da \<longrightarrow> named_single n is_table r) (named (Group (OneOrMore (Group TABLE_ROW))) n)"
  by (rule sound_named [OF sound_group [OF sound_rows]]) simp_all

lemma named_named [simp]: "named (named e a) b = named e b"
  by (simp add: named_def)

lemma sound_TABLE: "sound da (\<lambda>r. da \<longrightarrow> named_single ''table'' is_table r) TABLE"
  unfolding TABLE_def by (rule sound_table_as)

lemma consuming_rows: "consuming da (Group (OneOrMore (Group TABLE_ROW)))"
  by (intro consuming_Group consuming_OneOrMore [OF sound_group [OF sound_TABLE_ROW]]
        consuming_TABLE_ROW)

lemma one_payload_iff:
  "one_payload v \<longleftrightarrow> (\<exists>s tbl ml. v = Statement s tbl ml \<and> (tbl = None \<or> ml = None))"
  by (cases v) auto

lemma payload_iff: "payload r \<longleftrightarrow> fst r = [] \<or> (\<exists>v. fst r = [v] \<and> (is_table v \<or> is_Str v))"
  by (auto simp: payload_def split: list.splits)

lemma sound_KW: "sound da (single is_Str) KW"
  by (rule sound_MatchFirst) (simp add: sound_Keyword)

lemma consuming_KW: "consuming da KW"
  by (rule consuming_MatchFirst) (simp add: consuming_Keyword)

lemma sound_PAY: "sound da (\<lambda>r. da \<longrightarrow> payload r) PAY"
proof (rule sound_Optional [OF sound_MatchFirst])
  have "sound da (\<lambda>r. da \<longrightarrow> payload r) TABLE"
    by (rule sound_mono [OF sound_TABLE]) (auto simp: named_single_iff payload_iff)
  moreover have "sound da (\<lambda>r. da \<longrightarrow> payload r) MULTILINE"
    by (rule sound_mono [OF sound_MULTILINE]) (auto simp: single_iff payload_iff)
  ultimately show "list_all (sound da (\<lambda>r. da \<longrightarrow> payload r)) [TABLE, MULTILINE]" by simp
  show "da \<longrightarrow> payload ([], [])" by (simp add: payload_iff)
qed

lemma iter_rows_ok: "list_all (grouped P) rows \<Longrightarrow> \<exists>tbl. iter_rows rows = Inr tbl"
  by (induction rows) (auto simp: grouped_iff)

lemma Statement_init_table:
  "is_table v \<Longrightarrow> \<exists>tbl. Statement_init ([Str k, Str t, v], d) = Inr (Statement (k @ t) (Some tbl) None)"
proof -
  assume "is_table v"
  then obtain rows d' where v: "v = ParseResults rows d'" and "list_all is_row rows"
    by (auto simp: grouped_iff many1_iff)
  from iter_rows_ok [OF this(2)] obtain tbl where "iter_rows rows = Inr tbl" by blast
  then show ?thesis using v by (simp add: Statement_init_def Statement_new_def str_add_def)
qed

lemma Statement_init_ok:
  assumes "single is_Str a" "single is_Str b" "payload c"
  shows "\<exists>v. Statement_init (foldl add_results a [b, c]) = Inr v \<and> one_payload v"
proof -
  obtain k t where a: "a = ([Str k], [])" and b: "b = ([Str t], [])"
    using assms(1,2) by (auto simp: single_iff is_Str_iff)
  obtain cs d where c: "c = (cs, d)" by (cases c)
  consider "cs = []" | v where "cs = [v]" "is_table v" | x where "cs = [Str x]"
    using assms(3) c by (auto simp: payload_iff is_Str_iff)
  then show ?thesis
  proof cases
    case 1
    then show ?thesis using a b c
      by (simp add: add_results_def Statement_init_def Statement_new_def str_add_def)
  next
    case 2
    from Statement_init_table [OF 2(2), of k t d] show ?thesis using a b c 2(1)
      by (auto simp: add_results_def)
  next
    case 3
    then show ?thesis using a b c
      by (simp add: add_results_def Statement_init_def Statement_new_def str_add_def)
  qed
qed

lemma sound_STATEMENT: "sound da (\<lambda>r. da \<longrightarrow> single one_payload r) STATEMENT"
  unfolding STATEMENT_def
proof (rule sound_action)
  show "sound da (\<lambda>r. da \<longrightarrow> (\<exists>a b c. single is_Str a \<and> single is_Str b \<and> payload c \<and>
            r = foldl add_results a [b, c])) (And [KW, restOfLine, PAY])"
  proof (rule sound_And [where P = "single is_Str" and Ps = "[single is_Str, \<lambda>r. da \<longrightarrow> payload r]"])
    show "sound da (single is_Str) KW" by (rule sound_KW)
    show "list_all2 (sound da) [single is_Str, \<lambda>r. da \<longrightarrow> payload r] [restOfLine, PAY]"
      by (simp add: sound_restOfLine sound_PAY)
  next
    fix r rs
    assume r: "single is_Str r"
      and "list_all2 (\<lambda>P r. P r) [single is_Str, \<lambda>r. da \<longrightarrow> payload r] rs"
    then obtain b c where "rs = [b, c]" "single is_Str b" "da \<longrightarrow> payload c"
      by (auto simp: list_all2_Cons1)
    then show "da \<longrightarrow> (\<exists>a b c. single is_Str a \<and> single is_Str b \<and> payload c \<and>
            foldl add_results r rs = foldl add_results a [b, c])"
      using r by blast
  qed
  show "\<And>r. \<exists>a b c. single is_Str a \<and> single is_Str b \<and> payload c \<and> r = foldl add_results a [b, c] \<Longrightarrow>
          \<exists>vs. construct Statement_init r = Inr vs \<and> vs \<noteq> [] \<and> single one_payload (vs, [])"
    using Statement_init_ok by (fastforce simp: construct_def single_iff)
qed simp_all

lemma consuming_STATEMENT: "consuming da STATEMENT"
  unfolding STATEMENT_def
  by (intro consuming_action
        consuming_And [where Ps = "[single is_Str, \<lambda>r. da \<longrightarrow> payload r]"] consuming_KW)
     (simp_all add: sound_restOfLine sound_PAY)

lemma PAY_first_match:
  "parseNoCache TABLE s q da True = Inr ret \<Longrightarrow> parseNoCache PAY s q da cpp = Inr ret"
  by (subst pN_Optional) (simp add: pN_MatchFirst Let_def)

lemma rows_table:
  "list_all is_row rows \<Longrightarrow>
   \<exists>tbl. rows = map (\<lambda>cells. ParseResults cells []) tbl \<and> iter_rows rows = Inr tbl \<and>
         list_all (\<lambda>cells. cells \<noteq> [] \<and> list_all is_Str cells) tbl"
proof (induction rows)
  case Nil
  then show ?case by simp
next
  case (Cons r rows)
  then obtain tbl where t: "rows = map (\<lambda>cells. ParseResults cells []) tbl" "iter_rows rows = Inr tbl"
    "list_all (\<lambda>cells. cells \<noteq> [] \<and> list_all is_Str cells) tbl" by auto
  from Cons.prems obtain c cs where r: "r = ParseResults (c # cs) []" "list_all is_Str (c # cs)"
    by (auto simp: grouped_iff many1_iff)
  have "r # rows = map (\<lambda>cells. ParseResults cells []) ((c # cs) # tbl) \<and>
        iter_rows (r # rows) = Inr ((c # cs) # tbl) \<and>
        list_all (\<lambda>cells. cells \<noteq> [] \<and> list_all is_Str cells) ((c # cs) # tbl)"
    using t r by simp
  then show ?case by (intro exI [of _ "(c # cs) # tbl"])
qed

lemma STATEMENT_with_table:
  assumes h: "parseNoCache (And [KW, restOfLine]) s p True cpp = Inr (q, h)"
    and t: "parseNoCache TABLE s q True True = Inr (e, t)"
  shows "\<exists>k x tbl. h = ([Str k, Str x], []) \<and>
           t = ([ParseResults (map (\<lambda>cells. ParseResults cells []) tbl) []],
                [(''table'', ParseResults (map (\<lambda>cells. ParseResults cells []) tbl) [])]) \<and>
           tbl \<noteq> [] \<and> list_all (\<lambda>cells. cells \<noteq> [] \<and> list_all is_Str cells) tbl \<and>
           parseNoCache STATEMENT s p True cpp =
             Inr (e, ([Statement (k @ x) (Some tbl) None], []))"
proof -
  define p' where "p' = (if cpp then preParse KW s p else p)"
  have "parseNoCache (And [KW, restOfLine]) s p True cpp =
          catch_IndexError (And [KW, restOfLine]) s p
          (case parseNoCache KW s p' True False of Inl x \<Rightarrow> Inl x
           | Inr (l, r) \<Rightarrow> And_loop [restOfLine] s l True r)"
    by (simp add: pN_And p'_def)
  with h obtain l1 r1 where k: "parseNoCache KW s p' True False = Inr (l1, r1)"
    and al: "And_loop [restOfLine] s l1 True r1 = Inr (q, h)"
    by (auto split: sum.splits)
  from al obtain r2 where r: "parseNoCache restOfLine s l1 True True = Inr (q, r2)"
    and hh: "h = add_results r1 r2"
    by (auto split: sum.splits simp del: add_results_simps)
  obtain kw where r1: "r1 = ([Str kw], [])"
    using soundD [OF sound_KW, of s p' True False] k by (auto simp: single_iff is_Str_iff)
  obtain x where r2: "r2 = ([Str x], [])"
    using soundD [OF sound_restOfLine, of s l1 True True] r by (auto simp: single_iff is_Str_iff)
  obtain v where tt: "t = ([v], [(''table'', v)])" and v: "is_table v"
    using soundD [OF sound_TABLE, of s q True True] t by (auto simp: named_single_iff)
  from v obtain row rows where vv: "v = ParseResults (row # rows) []" and rr: "list_all is_row (row # rows)"
    by (auto simp: grouped_iff many1_iff)
  from rows_table [OF rr] obtain tbl where
    tbl0: "row # rows = map (\<lambda>cells. ParseResults cells []) tbl \<and> iter_rows (row # rows) = Inr tbl \<and>
      list_all (\<lambda>cells. cells \<noteq> [] \<and> list_all is_Str cells) tbl" ..
  note tbl = conjunct1 [OF tbl0] conjunct1 [OF conjunct2 [OF tbl0]] conjunct2 [OF conjunct2 [OF tbl0]]
  have ne: "tbl \<noteq> []" using tbl(1) by auto
  have i: "Statement_init ([Str kw, Str x, v], [(''table'', v)]) = Inr (Statement (kw @ x) (Some tbl) None)"
    using tbl(2) by (simp add: vv Statement_init_def Statement_new_def str_add_def)
  have "parseNoCache (And [KW, restOfLine, PAY]) s p True cpp =
          catch_IndexError (And [KW, restOfLine, PAY]) s p
          (case parseNoCache KW s p' True False of Inl x \<Rightarrow> Inl x
           | Inr (l, r) \<Rightarrow> And_loop [restOfLine, PAY] s l True r)"
    by (simp add: pN_And p'_def)
  then have a: "parseNoCache (And [KW, restOfLine, PAY]) s p True cpp =
             Inr (e, ([Str kw, Str x, v], [(''table'', v)]))"
    by (simp add: k r PAY_first_match [OF t] r1 r2 tt)
  have "parseNoCache STATEMENT s p True cpp = Inr (e, ([Statement (kw @ x) (Some tbl) None], []))"
    unfolding STATEMENT_def by (subst pN_setParseAction) (simp_all add: a i construct_def)
  then show ?thesis using hh r1 r2 tt vv tbl(1,3) ne by auto
qed

lemma KW_rest_ok:
  assumes k: "kw \<in> set step_keywords" and d: "drop p s = kw @ text @ tail"
    and t: "one_line text" "text = [] \<or> hd text \<notin> set identChars"
    and tl: "tail = [] \<or> hd tail = CHR 0x0A" and w: "word_start s p"
  shows "parseNoCache (And [KW, restOfLine]) s p True False
           = Inr (p + length kw + length text, ([Str kw, Str text], []))"
proof -
  define q1 where "q1 = p + length kw"
  have nl: "CHR 0x0A \<notin> set identChars" by (simp add: identChars_def alphanums_def)
  have r0: "text @ tail = [] \<or> hd (text @ tail) \<notin> set identChars"
    using t(2) tl nl by (cases "text") auto
  have f1: "parseNoCache KW s p True False = Inr (q1, ([Str kw], []))"
    using KW_ok [OF k d r0 w] by (simp add: q1_def)
  have d1: "drop q1 s = text @ tail" using drop_more [OF d] by (simp add: q1_def)
  have "kw \<noteq> []" using k by (auto simp: step_keywords_def)
  then have "length (drop p s) \<ge> length kw" "0 < length kw" using d by simp_all
  then have l1: "q1 \<le> length s" unfolding q1_def length_drop by arith
  have f2: "parseNoCache restOfLine s q1 True True = Inr (q1 + length text, ([Str text], []))"
    using pN_restOfLine [OF d1 t(1) tl l1] by simp
  have "parseNoCache (And [KW, restOfLine]) s p True False
           = Inr (q1 + length text, ([Str kw, Str text], []))"
    by (subst pN_And) (simp add: f1 f2)
  then show ?thesis by (simp add: q1_def)
qed

section \<open>One payload for a statement\<close>

text \<open>
  Claim C5. A Statement that \<^verbatim>\<open>STATEMENT\<close> parses with its parse action has at most one
  payload: its \<^verbatim>\<open>table\<close> or its \<^verbatim>\<open>multiline\<close> is \<^verbatim>\<open>None\<close>. And the table comes first: where the
  keyword and the rest of the line match (tokens \<open>k\<close> and \<open>x\<close>) and \<^verbatim>\<open>TABLE\<close> matches what
  follows, the statement parses to the Statement with the text \<open>k @ x\<close>, whose \<^verbatim>\<open>table\<close> is the
  list of the rows \<^verbatim>\<open>TABLE\<close> matched, each the list of its cells, with at least one row and
  at least one cell in every row, and whose \<^verbatim>\<open>multiline\<close> is \<^verbatim>\<open>None\<close>.
\<close>

theorem one_payload_kind:
  "(parseNoCache STATEMENT s p True cpp = Inr (e, r) \<longrightarrow>
      (\<exists>text tbl ml. r = ([Statement text tbl ml], []) \<and> (tbl = None \<or> ml = None))) \<and>
   (parseNoCache (And [KW, restOfLine]) s p True cpp = Inr (q, h) \<and>
    parseNoCache TABLE s q True True = Inr (e', t) \<longrightarrow>
      (\<exists>k x tbl. h = ([Str k, Str x], []) \<and>
         t = ([ParseResults (map (\<lambda>cells. ParseResults cells []) tbl) []],
              [(''table'', ParseResults (map (\<lambda>cells. ParseResults cells []) tbl) [])]) \<and>
         tbl \<noteq> [] \<and> list_all (\<lambda>cells. cells \<noteq> [] \<and> list_all is_Str cells) tbl \<and>
         parseNoCache STATEMENT s p True cpp =
           Inr (e', ([Statement (k @ x) (Some tbl) None], []))))"
proof (intro conjI impI)
  assume "parseNoCache STATEMENT s p True cpp = Inr (e, r)"
  then have "single one_payload r"
    using soundD [OF sound_STATEMENT, of s p True cpp] by simp
  then show "\<exists>text tbl ml. r = ([Statement text tbl ml], []) \<and> (tbl = None \<or> ml = None)"
    by (auto simp: single_iff one_payload_iff)
next
  assume "parseNoCache (And [KW, restOfLine]) s p True cpp = Inr (q, h) \<and>
    parseNoCache TABLE s q True True = Inr (e', t)"
  then show "\<exists>k x tbl. h = ([Str k, Str x], []) \<and>
         t = ([ParseResults (map (\<lambda>cells. ParseResults cells []) tbl) []],
              [(''table'', ParseResults (map (\<lambda>cells. ParseResults cells []) tbl) [])]) \<and>
         tbl \<noteq> [] \<and> list_all (\<lambda>cells. cells \<noteq> [] \<and> list_all is_Str cells) tbl \<and>
         parseNoCache STATEMENT s p True cpp =
           Inr (e', ([Statement (k @ x) (Some tbl) None], []))"
    using STATEMENT_with_table by blast
qed

theorem one_payload_kind_witness:
  "parseNoCache STATEMENT (''Given x'' @ [CHR 0x0A] @ ''|a|'' @ [CHR 0x0A]) 0 True False =
      Inr (12, ([Statement ''Given x'' (Some [[Str ''a'']]) None], []))"
proof -
  define s where "s = ''Given x'' @ [CHR 0x0A] @ ''|a|'' @ [CHR 0x0A]"
  have f1: "parseNoCache (And [KW, restOfLine]) s 0 True False =
              Inr (7, ([Str ''Given'', Str '' x''], []))"
    using KW_rest_ok [of "''Given''" 0 s "'' x''" "[CHR 0x0A] @ ''|a|'' @ [CHR 0x0A]"]
    by (simp add: s_def step_keywords_def one_line_def identChars_def alphanums_def word_start_def)
  have f2: "parseNoCache TABLE s 7 True True =
              Inr (12, ([ParseResults [ParseResults [Str ''a''] []] []],
                        [(''table'', ParseResults [ParseResults [Str ''a''] []] [])]))"
    using TABLE_ok [of 7 s "[CHR 0x0A]" "[''a'']" "[]" "[]" "[]"]
    by (simp add: s_def render_table_def render_row_def blank_def DEFAULT_WHITE_CHARS_def
          valid_row_def valid_cell_def next_char_def strip_def isspace_def)
  note E = conjunct2 [OF one_payload_kind [of s 0 False 12 "([], [])" 7
        "([Str ''Given'', Str '' x''], [])" 12
        "([ParseResults [ParseResults [Str ''a''] []] []],
          [(''table'', ParseResults [ParseResults [Str ''a''] []] [])])"],
      THEN mp, OF conjI [OF f1 f2]]
  from E show ?thesis unfolding s_def by (auto simp: map_eq_Cons_conv)
qed

section \<open>The table accessors\<close>

text \<open>
  Claim C8. On a Statement whose table is absent (a multiline payload or none),
  \<^verbatim>\<open>keys\<close> and \<^verbatim>\<open>hashes\<close> raise (\<^verbatim>\<open>TypeError\<close>: \<^verbatim>\<open>None\<close> is indexed); neither returns an empty
  result. Each of them returns a value exactly when the Statement has a table with at
  least one row.
\<close>

theorem keys_hashes_total_iff_table:
  "keys (Statement s None m) = Inl TypeError \<and>
   hashes (Statement s None m) = Inl TypeError \<and>
   ((\<exists>ks. keys (Statement s tbl m) = Inr ks) = (\<exists>row rows. tbl = Some (row # rows))) \<and>
   ((\<exists>hs. hashes (Statement s tbl m) = Inr hs) = (\<exists>row rows. tbl = Some (row # rows)))"
proof -
  have k: "(\<exists>ks. keys (Statement s tbl m) = Inr ks) = (\<exists>row rows. tbl = Some (row # rows))"
  proof (cases tbl)
    case None
    then show ?thesis by simp
  next
    case (Some t)
    then show ?thesis by (cases t) simp_all
  qed
  have h: "(\<exists>hs. hashes (Statement s tbl m) = Inr hs) = (\<exists>ks. keys (Statement s tbl m) = Inr ks)"
    by (cases "keys (Statement s tbl m)") simp_all
  show ?thesis using k h by simp
qed

section \<open>Selective clear\<close>




end
